theory Spec2Isabelle
  imports Main "HOL-Library.AList" "HOL-Library.Multiset"
begin

section \<open>The dependency graph of kustomization units (package utils, kustomize.go)\<close>

text \<open>
  The Go file reads a directory tree through \<open>os\<close>, \<open>ioutil\<close>, \<open>filepath\<close> and
  \<open>yaml\<close>, and through \<open>Exists\<close>, a helper of the package that kustomize.go calls and does
  not define. None of these is part of kustomize.go: each is a field of the record \<open>env\<close>,
  and every function of kustomize.go takes the \<open>env\<close> it runs in. A library call that hands
  back an \<open>error\<close> hands back its message here (\<open>Inl\<close>).
\<close>

subsection \<open>Data\<close>

text \<open>\<open>type Kustomization struct\<close>: the three list fields the YAML document is decoded into.\<close>

record Kustomization =
  Resources :: "string list"
  Components :: "string list"
  PatchesStrategicMerge :: "string list"

text \<open>
  The error values kustomize.go can return:
  \<^item> \<open>NoKustomizationFileFound path\<close> is \<open>fmt.Errorf("no kustomization file found: %v", path)\<close>;
  \<^item> \<open>NoKustomizationFoundInDir\<close> is \<open>errors.New("No Kustomization found in dir")\<close>;
  \<^item> \<open>ExternalError msg\<close> is an error value received from a library call and returned as it is;
  \<^item> \<open>WithStack e\<close> is \<open>errors.WithStack(e)\<close> for a non-nil \<open>e\<close>.
\<close>

datatype error =
    NoKustomizationFileFound string
  | NoKustomizationFoundInDir
  | ExternalError string
  | WithStack error

text \<open>
  One call of the function handed to \<open>filepath.WalkDir\<close>: the path, \<open>d.IsDir()\<close>, and the
  \<open>err\<close> argument (\<open>None\<close> for nil).
\<close>

type_synonym walk_entry = "string \<times> bool \<times> string option"

text \<open>A Go \<open>map[string][]string\<close> that is ranged over: its entries in the order the
  \<open>range\<close> loop yields them (keys are distinct in a Go map).\<close>

type_synonym ref_entries = "(string \<times> string list) list"

text \<open>A Go \<open>map[string][]string\<close> that is only indexed.\<close>

type_synonym ref_map = "string \<rightharpoonup> string list"

record env =
  utils_Exists :: "string \<Rightarrow> bool"
  os_Stat :: "string \<Rightarrow> string + bool"
  ioutil_ReadFile :: "string \<Rightarrow> string + string"
  yaml_Unmarshal :: "string \<Rightarrow> string + Kustomization"
  filepath_Join :: "string \<Rightarrow> string \<Rightarrow> string"
  filepath_Rel :: "string \<Rightarrow> string \<Rightarrow> string + string"
  filepath_Abs :: "string \<Rightarrow> string"
  filepath_WalkDir :: "string \<Rightarrow> walk_entry list"
  range_rank :: "string \<Rightarrow> nat"

text \<open>
  \<^item> \<open>os_Stat p\<close> is \<open>Inr (fileInfo.IsDir())\<close> when \<open>os.Stat(p)\<close> succeeds;
  \<^item> \<open>filepath_Abs\<close> has no error case: kustomize.go drops its error (\<open>filename, _ := \<dots>\<close>);
  \<^item> \<open>filepath_WalkDir root\<close> lists the calls \<open>filepath.WalkDir\<close> makes on \<open>root\<close> while the
    function it is given returns nil; the first non-nil return ends the walk (the function
    of \<open>BuildRefs\<close> returns nil or an \<open>errors.WithStack\<close> value, never \<open>SkipDir\<close>);
  \<^item> \<open>range_rank\<close> fixes the order in which the Go runtime ranges over a map: entries
    come by increasing rank of their keys. Go leaves that order open, and so does \<open>env\<close>.
\<close>

subsection \<open>KustomizationExists\<close>

definition KustomizationExists :: "env \<Rightarrow> string \<Rightarrow> bool \<times> string" where
  "KustomizationExists env path =
     (let exists1 = utils_Exists env (filepath_Join env path ''kustomization.yaml'') in
      if exists1 then (True, ''kustomization.yaml'')
      else
        (let exists2 = utils_Exists env (filepath_Join env path ''kustomization.yml'') in
         if exists2 then (True, ''kustomization.yml'')
         else (False, '''')))"

subsection \<open>GetKustomizationRefs\<close>

text \<open>
  The body of \<open>for _, r := range simpleResources\<close>: either the error the function returns
  from inside the loop, or the string the iteration appends to \<open>refs\<close>.
\<close>

definition refs_entry :: "env \<Rightarrow> string \<Rightarrow> string \<Rightarrow> string \<Rightarrow> error + string" where
  "refs_entry env basePath path r =
     (case filepath_Rel env basePath (filepath_Join env path r) of
        Inl err \<Rightarrow> Inl (ExternalError err)
      | Inr rel \<Rightarrow>
          (let candidatePath = filepath_Join env path r in
           case os_Stat env candidatePath of
             Inl err \<Rightarrow> Inr rel
           | Inr isDir \<Rightarrow>
               if isDir then
                 (case KustomizationExists env candidatePath of
                    (exists, kustomizationFilename) \<Rightarrow>
                      if \<not> exists then Inl NoKustomizationFoundInDir
                      else
                        (case filepath_Rel env basePath
                                (filepath_Join env candidatePath kustomizationFilename) of
                           Inl err \<Rightarrow> Inl (ExternalError err)
                         | Inr kustomizationPath \<Rightarrow> Inr kustomizationPath))
               else Inr rel))"

fun refs_loop :: "env \<Rightarrow> string \<Rightarrow> string \<Rightarrow> string list \<Rightarrow> string list \<Rightarrow> error + string list" where
  "refs_loop env basePath path [] refs = Inr refs"
| "refs_loop env basePath path (r # rs) refs =
     (case refs_entry env basePath path r of
        Inl err \<Rightarrow> Inl err
      | Inr x \<Rightarrow> refs_loop env basePath path rs (refs @ [x]))"

definition GetKustomizationRefs :: "env \<Rightarrow> string \<Rightarrow> string \<Rightarrow> error + string list" where
  "GetKustomizationRefs env basePath path =
     (case KustomizationExists env path of
        (exists, f) \<Rightarrow>
          if \<not> exists then Inl (NoKustomizationFileFound path)
          else
            (let filename = filepath_Abs env (filepath_Join env path f) in
             case ioutil_ReadFile env filename of
               Inl err \<Rightarrow> Inl (ExternalError err)
             | Inr yamlFile \<Rightarrow>
                 (case yaml_Unmarshal env yamlFile of
                    Inl err \<Rightarrow> Inl (ExternalError err)
                  | Inr kustomization \<Rightarrow>
                      (let refs = [];
                           simpleResources = [];
                           simpleResources = simpleResources @ Resources kustomization;
                           simpleResources = simpleResources @ Components kustomization;
                           simpleResources = simpleResources @ PatchesStrategicMerge kustomization
                       in refs_loop env basePath path simpleResources refs))))"

subsection \<open>InvertRefs\<close>

text \<open>\<open>m[k]\<close> on a Go map: the zero value (a nil slice) for a key that is absent.\<close>

definition index :: "ref_map \<Rightarrow> string \<Rightarrow> string list" where
  "index m k = (case m k of None \<Rightarrow> [] | Some v \<Rightarrow> v)"

text \<open>\<open>for _, e := range v { invertedRefs[e] = append(invertedRefs[e], k) }\<close>\<close>

fun invert_inner :: "string \<Rightarrow> string list \<Rightarrow> ref_map \<Rightarrow> ref_map" where
  "invert_inner k [] invertedRefs = invertedRefs"
| "invert_inner k (e # v) invertedRefs =
     invert_inner k v (invertedRefs(e \<mapsto> index invertedRefs e @ [k]))"

text \<open>\<open>for k, v := range refMap { \<dots> }\<close>\<close>

fun invert_outer :: "ref_entries \<Rightarrow> ref_map \<Rightarrow> ref_map" where
  "invert_outer [] invertedRefs = invertedRefs"
| "invert_outer ((k, v) # refMap) invertedRefs =
     invert_outer refMap (invert_inner k v invertedRefs)"

definition InvertRefs :: "ref_entries \<Rightarrow> ref_map" where
  "InvertRefs refMap = invert_outer refMap Map.empty"

text \<open>\<open>refMap[a]\<close> for a map given by its entries.\<close>

definition forward :: "ref_entries \<Rightarrow> string \<Rightarrow> string list" where
  "forward refMap a = index (map_of refMap) a"

subsection \<open>BuildRefs\<close>

text \<open>
  The function literal handed to \<open>filepath.WalkDir\<close>, for one call: the error it returns,
  or \<open>refMap\<close> as the call leaves it.
\<close>

definition walk_fn :: "env \<Rightarrow> string \<Rightarrow> ref_entries \<Rightarrow> walk_entry \<Rightarrow> error + ref_entries" where
  "walk_fn env dirPath refMap entry =
     (case entry of
        (path, isDir, err) \<Rightarrow>
          (case err of
             Some e \<Rightarrow> Inl (WithStack (ExternalError e))
           | None \<Rightarrow>
               if \<not> isDir then Inr refMap
               else
                 (case KustomizationExists env path of
                    (exists, kustomizationPath) \<Rightarrow>
                      if \<not> exists then Inr refMap
                      else
                        (case filepath_Rel env dirPath path of
                           Inl e \<Rightarrow> Inl (WithStack (ExternalError e))
                         | Inr relPath \<Rightarrow>
                             (let absPath = filepath_Join env dirPath relPath in
                              case GetKustomizationRefs env dirPath absPath of
                                Inl e \<Rightarrow> Inl (WithStack e)
                              | Inr refs \<Rightarrow>
                                  Inr (AList.update
                                         (filepath_Join env relPath kustomizationPath)
                                         refs refMap))))))"

text \<open>\<open>filepath.WalkDir\<close> over the calls it has to make: it stops at the first error.\<close>

fun walk :: "env \<Rightarrow> string \<Rightarrow> walk_entry list \<Rightarrow> ref_entries \<Rightarrow> error + ref_entries" where
  "walk env dirPath [] refMap = Inr refMap"
| "walk env dirPath (entry # entries) refMap =
     (case walk_fn env dirPath refMap entry of
        Inl err \<Rightarrow> Inl err
      | Inr refMap' \<Rightarrow> walk env dirPath entries refMap')"

text \<open>The forward map \<open>refMap\<close> as \<open>BuildRefs\<close> holds it after the walk.\<close>

definition build_forward :: "env \<Rightarrow> string \<Rightarrow> error + ref_entries" where
  "build_forward env dirPath = walk env dirPath (filepath_WalkDir env dirPath) []"

definition BuildRefs :: "env \<Rightarrow> string \<Rightarrow> error + ref_map" where
  "BuildRefs env dirPath =
     (case build_forward env dirPath of
        Inl err \<Rightarrow> Inl err
      | Inr refMap \<Rightarrow>
          (let refs = InvertRefs (sort_key (\<lambda>kv. range_rank env (fst kv)) refMap)
           in Inr refs))"

subsection \<open>FindParents\<close>

text \<open>
  \<open>FindParents\<close> calls itself once for every referrer, with nothing that bounds the depth.
  The first argument here is the depth of calls still allowed: \<open>None\<close> says the call did
  not return within it. A call that returns gives the pair of Go results, the slice and
  the error (\<open>None\<close> for nil).
\<close>

fun FindParents :: "nat \<Rightarrow> env \<Rightarrow> string \<Rightarrow> string \<Rightarrow> (string list \<times> error option) option"
  and parents_loop :: "nat \<Rightarrow> env \<Rightarrow> string list \<Rightarrow> string \<Rightarrow> string list \<Rightarrow> string list option"
where
  "FindParents 0 env referrent basePath = None"
| "FindParents (Suc fuel) env referrent basePath =
     (case (case BuildRefs env basePath of
              Inl e \<Rightarrow> (Map.empty, Some e)
            | Inr m \<Rightarrow> (m, None)) of
        (allRefs, err) \<Rightarrow>
          (let parents = [];
               refs = index allRefs referrent
           in if length refs = 0 then Some ([referrent], None)
              else
                (case parents_loop fuel env refs basePath parents of
                   None \<Rightarrow> None
                 | Some parents' \<Rightarrow> Some (parents', err))))"
| "parents_loop fuel env [] basePath parents = Some parents"
| "parents_loop fuel env (ref # refs) basePath parents =
     (case FindParents fuel env ref basePath of
        None \<Rightarrow> None
      | Some (p, _) \<Rightarrow> parents_loop fuel env refs basePath (parents @ p))"

text \<open>
  Every call of \<open>FindParents\<close> reads the tree again. \<open>FindParents_at\<close> is the same function
  for a tree that can change between one call of \<open>BuildRefs\<close> and the next: \<open>world t\<close> is
  what the call of \<open>BuildRefs\<close> number \<open>t\<close> finds, and a call that returns also gives the
  number of calls of \<open>BuildRefs\<close> made by then.
\<close>

fun FindParents_at ::
    "nat \<Rightarrow> (nat \<Rightarrow> env) \<Rightarrow> nat \<Rightarrow> string \<Rightarrow> string \<Rightarrow>
       ((string list \<times> error option) \<times> nat) option"
  and parents_loop_at ::
    "nat \<Rightarrow> (nat \<Rightarrow> env) \<Rightarrow> nat \<Rightarrow> string list \<Rightarrow> string \<Rightarrow> string list \<Rightarrow>
       (string list \<times> nat) option"
where
  "FindParents_at 0 world t referrent basePath = None"
| "FindParents_at (Suc fuel) world t referrent basePath =
     (case (case BuildRefs (world t) basePath of
              Inl e \<Rightarrow> (Map.empty, Some e)
            | Inr m \<Rightarrow> (m, None)) of
        (allRefs, err) \<Rightarrow>
          (let parents = [];
               refs = index allRefs referrent
           in if length refs = 0 then Some (([referrent], None), Suc t)
              else
                (case parents_loop_at fuel world (Suc t) refs basePath parents of
                   None \<Rightarrow> None
                 | Some (parents', t') \<Rightarrow> Some ((parents', err), t'))))"
| "parents_loop_at fuel world t [] basePath parents = Some (parents, t)"
| "parents_loop_at fuel world t (ref # refs) basePath parents =
     (case FindParents_at fuel world t ref basePath of
        None \<Rightarrow> None
      | Some ((p, _), t') \<Rightarrow> parents_loop_at fuel world t' refs basePath (parents @ p))"

subsection \<open>A directory tree on disk\<close>

text \<open>
  An \<open>env\<close> for a directory tree that is written out: the paths of the tree (rooted and
  clean) in the order \<open>filepath.WalkDir\<close> visits them (lexical within each directory), each
  a directory or a file with its bytes, and the documents \<open>yaml.Unmarshal\<close> decodes those
  bytes into. The walk names the root as the caller wrote it and every other path as that
  root joined with the path below it.
  \<open>posix_Clean\<close>, \<open>posix_Join\<close> and \<open>posix_Rel\<close> are \<open>filepath.Clean\<close>, \<open>filepath.Join\<close>
  (of two elements) and \<open>filepath.Rel\<close> of the Go library on slash-separated paths. The
  working directory is \<open>/\<close>.
\<close>

datatype node = Dir | File string

type_synonym tree = "(string \<times> node) list"

fun elements :: "string \<Rightarrow> string list" where
  "elements [] = [[]]"
| "elements (c # cs) =
     (if c = CHR ''/'' then [] # elements cs
      else (case elements cs of [] \<Rightarrow> [[c]] | e # es \<Rightarrow> (c # e) # es))"

fun unsplit :: "string list \<Rightarrow> string" where
  "unsplit [] = []"
| "unsplit [e] = e"
| "unsplit (e # es) = e @ ''/'' @ unsplit es"

definition rooted :: "string \<Rightarrow> bool" where
  "rooted p = (case p of [] \<Rightarrow> False | c # _ \<Rightarrow> c = CHR ''/'')"

fun clean_stack :: "bool \<Rightarrow> string list \<Rightarrow> string list \<Rightarrow> string list" where
  "clean_stack r [] st = rev st"
| "clean_stack r (e # es) st =
     (if e = [] \<or> e = ''.'' then clean_stack r es st
      else if e = ''..'' then
        (case st of
           [] \<Rightarrow> clean_stack r es (if r then [] else [''..''])
         | t # ts \<Rightarrow>
             if t = ''..'' then clean_stack r es (''..'' # st) else clean_stack r es ts)
      else clean_stack r es (e # st))"

definition clean_elements :: "string \<Rightarrow> string list" where
  "clean_elements p = clean_stack (rooted p) (elements p) []"

definition posix_Clean :: "string \<Rightarrow> string" where
  "posix_Clean p =
     (if rooted p then CHR ''/'' # unsplit (clean_elements p)
      else if clean_elements p = [] then ''.''
      else unsplit (clean_elements p))"

definition posix_Join :: "string \<Rightarrow> string \<Rightarrow> string" where
  "posix_Join a b =
     (if a = [] \<and> b = [] then []
      else if a = [] then posix_Clean b
      else if b = [] then posix_Clean a
      else posix_Clean (a @ ''/'' @ b))"

fun strip_common :: "string list \<Rightarrow> string list \<Rightarrow> string list \<times> string list" where
  "strip_common (x # xs) (y # ys) =
     (if x = y then strip_common xs ys else (x # xs, y # ys))"
| "strip_common xs ys = (xs, ys)"

definition posix_Rel :: "string \<Rightarrow> string \<Rightarrow> string + string" where
  "posix_Rel basepath targpath =
     (let base = posix_Clean basepath;
          targ = posix_Clean targpath
      in if targ = base then Inr ''.''
         else if rooted base \<noteq> rooted targ
           then Inl (''Rel: can't make '' @ targpath @ '' relative to '' @ basepath)
         else
           (case strip_common (clean_elements base) (clean_elements targ) of
              (bs, ts) \<Rightarrow>
                if bs \<noteq> [] \<and> hd bs = ''..''
                  then Inl (''Rel: can't make '' @ targpath @ '' relative to '' @ basepath)
                else Inr (unsplit (replicate (length bs) ''..'' @ ts))))"

definition posix_Abs :: "string \<Rightarrow> string" where
  "posix_Abs p = (if rooted p then posix_Clean p else posix_Join ''/'' p)"

definition node_at :: "tree \<Rightarrow> string \<Rightarrow> node option" where
  "node_at t p = map_of t (posix_Abs p)"

definition tree_Stat :: "tree \<Rightarrow> string \<Rightarrow> string + bool" where
  "tree_Stat t p =
     (case node_at t p of
        None \<Rightarrow> Inl (''stat '' @ p @ '': no such file or directory'')
      | Some Dir \<Rightarrow> Inr True
      | Some (File _) \<Rightarrow> Inr False)"

definition tree_ReadFile :: "tree \<Rightarrow> string \<Rightarrow> string + string" where
  "tree_ReadFile t p =
     (case node_at t p of
        None \<Rightarrow> Inl (''open '' @ p @ '': no such file or directory'')
      | Some Dir \<Rightarrow> Inl (''read '' @ p @ '': is a directory'')
      | Some (File bytes) \<Rightarrow> Inr bytes)"

definition tree_Unmarshal :: "(string \<times> Kustomization) list \<Rightarrow> string \<Rightarrow> string + Kustomization" where
  "tree_Unmarshal docs bytes =
     (case map_of docs bytes of
        None \<Rightarrow> Inl ''yaml: unmarshal errors''
      | Some k \<Rightarrow> Inr k)"

definition tree_WalkDir :: "tree \<Rightarrow> string \<Rightarrow> walk_entry list" where
  "tree_WalkDir t root =
     (case node_at t root of
        None \<Rightarrow> [(root, False, Some (''lstat '' @ root @ '': no such file or directory''))]
      | Some _ \<Rightarrow>
          (let top = posix_Abs root;
               below = (if top = ''/'' then top else top @ ''/'')
           in concat
                (map (\<lambda>(p, n).
                        if p = top then [(root, n = Dir, None)]
                        else if take (length below) p = below
                          then [(posix_Join root (drop (length below) p), n = Dir, None)]
                        else [])
                   t)))"

definition tree_env :: "tree \<Rightarrow> (string \<times> Kustomization) list \<Rightarrow> env" where
  "tree_env t docs =
     \<lparr> utils_Exists = (\<lambda>p. node_at t p \<noteq> None),
       os_Stat = tree_Stat t,
       ioutil_ReadFile = tree_ReadFile t,
       yaml_Unmarshal = tree_Unmarshal docs,
       filepath_Join = posix_Join,
       filepath_Rel = posix_Rel,
       filepath_Abs = posix_Abs,
       filepath_WalkDir = tree_WalkDir t,
       range_rank = (\<lambda>k. 0) \<rparr>"

text \<open>
  A tree without a reference cycle: \<open>refs\<close> uses the unit of \<open>a\<close>, its own component
  directory (whose unit is a \<open>kustomization.yml\<close>), three files on disk and
  \<open>remote.yaml\<close>, which is not on disk; \<open>b\<close> holds both unit filenames.
\<close>

definition unit_docs :: "(string \<times> Kustomization) list" where
  "unit_docs =
     [(''resources: [pod.yaml]'',
         \<lparr>Resources = [''pod.yaml''], Components = [], PatchesStrategicMerge = []\<rparr>),
      (''{resources: [pod.yaml, deployment.yaml, ../a, remote.yaml], components: [components], patchesStrategicMerge: [release-patch.yaml]}'',
         \<lparr>Resources = [''pod.yaml'', ''deployment.yaml'', ''../a'', ''remote.yaml''],
          Components = [''components''],
          PatchesStrategicMerge = [''release-patch.yaml'']\<rparr>),
      (''kind: Component'',
         \<lparr>Resources = [], Components = [], PatchesStrategicMerge = []\<rparr>),
      (''resources: [../y]'',
         \<lparr>Resources = [''../y''], Components = [], PatchesStrategicMerge = []\<rparr>),
      (''resources: [../x]'',
         \<lparr>Resources = [''../x''], Components = [], PatchesStrategicMerge = []\<rparr>),
      (''resources: [conf]'',
         \<lparr>Resources = [''conf''], Components = [], PatchesStrategicMerge = []\<rparr>),
      (''resources: [remote.yaml]'',
         \<lparr>Resources = [''remote.yaml''], Components = [], PatchesStrategicMerge = []\<rparr>),
      (''resources: [.]'',
         \<lparr>Resources = [''.''], Components = [], PatchesStrategicMerge = []\<rparr>)]"

definition repo_tree :: tree where
  "repo_tree =
     [(''/repo'', Dir),
      (''/repo/a'', Dir),
      (''/repo/a/kustomization.yaml'', File ''resources: [pod.yaml]''),
      (''/repo/a/pod.yaml'', File ''kind: Pod''),
      (''/repo/b'', Dir),
      (''/repo/b/kustomization.yaml'', File ''resources: [pod.yaml]''),
      (''/repo/b/kustomization.yml'', File ''kind: Component''),
      (''/repo/b/pod.yaml'', File ''kind: Pod''),
      (''/repo/refs'', Dir),
      (''/repo/refs/components'', Dir),
      (''/repo/refs/components/kustomization.yml'', File ''kind: Component''),
      (''/repo/refs/deployment.yaml'', File ''kind: Deployment''),
      (''/repo/refs/kustomization.yaml'',
         File ''{resources: [pod.yaml, deployment.yaml, ../a, remote.yaml], components: [components], patchesStrategicMerge: [release-patch.yaml]}''),
      (''/repo/refs/pod.yaml'', File ''kind: Pod''),
      (''/repo/refs/release-patch.yaml'', File ''kind: Deployment'')]"

definition repo_env :: env where
  "repo_env = tree_env repo_tree unit_docs"

text \<open>A tree with a reference cycle: the unit of \<open>x\<close> uses \<open>y\<close> and the unit of \<open>y\<close> uses \<open>x\<close>.\<close>

definition cycle_tree :: tree where
  "cycle_tree =
     [(''/repo'', Dir),
      (''/repo/x'', Dir),
      (''/repo/x/kustomization.yaml'', File ''resources: [../y]''),
      (''/repo/y'', Dir),
      (''/repo/y/kustomization.yaml'', File ''resources: [../x]'')]"

definition cycle_env :: env where
  "cycle_env = tree_env cycle_tree unit_docs"

text \<open>A tree whose build fails: the unit of \<open>app\<close> uses the directory \<open>conf\<close>, which holds no unit.\<close>

definition broken_tree :: tree where
  "broken_tree =
     [(''/repo'', Dir),
      (''/repo/app'', Dir),
      (''/repo/app/conf'', Dir),
      (''/repo/app/kustomization.yaml'', File ''resources: [conf]''),
      (''/repo/app/pod.yaml'', File ''kind: Pod'')]"

definition broken_env :: env where
  "broken_env = tree_env broken_tree unit_docs"

text \<open>A forward map with a source that names one target twice and a source that names none.\<close>

definition sample_refMap :: ref_entries where
  "sample_refMap =
     [(''a'', [''elem1'', ''elem2'']),
      (''b'', [''elem1'', ''elem1'']),
      (''g'', [])]"

text \<open>A tree whose only unit names one file, \<open>remote.yaml\<close>, that is not on disk.\<close>

definition remote_tree :: tree where
  "remote_tree =
     [(''/repo'', Dir),
      (''/repo/overlay'', Dir),
      (''/repo/overlay/kustomization.yaml'', File ''resources: [remote.yaml]'')]"

definition remote_env :: env where
  "remote_env = tree_env remote_tree unit_docs"

text \<open>
  A tree with a unit that names its own directory: the only entry of the unit of \<open>self\<close> is
  \<open>.\<close>, and the unit of \<open>other\<close> does not refer to it.
\<close>

definition self_tree :: tree where
  "self_tree =
     [(''/repo'', Dir),
      (''/repo/other'', Dir),
      (''/repo/other/kustomization.yaml'', File ''resources: [pod.yaml]''),
      (''/repo/other/pod.yaml'', File ''kind: Pod''),
      (''/repo/self'', Dir),
      (''/repo/self/kustomization.yaml'', File ''resources: [.]'')]"

definition self_env :: env where
  "self_env = tree_env self_tree unit_docs"

text \<open>
  The forward maps of \<open>repo_tree\<close>, of \<open>cycle_tree\<close> and of \<open>self_tree\<close>, as the walk of
  \<open>/repo\<close> builds them.
\<close>

definition self_forward :: ref_entries where
  "self_forward =
     [(''other/kustomization.yaml'', [''other/pod.yaml'']),
      (''self/kustomization.yaml'', [''self/kustomization.yaml''])]"

definition repo_forward :: ref_entries where
  "repo_forward =
     [(''a/kustomization.yaml'', [''a/pod.yaml'']),
      (''b/kustomization.yaml'', [''b/pod.yaml'']),
      (''refs/kustomization.yaml'',
         [''refs/pod.yaml'', ''refs/deployment.yaml'', ''a/kustomization.yaml'',
          ''refs/remote.yaml'', ''refs/components/kustomization.yml'',
          ''refs/release-patch.yaml'']),
      (''refs/components/kustomization.yml'', [])]"

definition cycle_forward :: ref_entries where
  "cycle_forward =
     [(''x/kustomization.yaml'', [''y/kustomization.yaml'']),
      (''y/kustomization.yaml'', [''x/kustomization.yaml''])]"

text \<open>\<open>repo_tree\<close> at the first call of \<open>BuildRefs\<close>, \<open>broken_tree\<close> from the second call on.\<close>

definition switched_world :: "nat \<Rightarrow> env" where
  "switched_world t = (if t = 0 then repo_env else broken_env)"

subsection \<open>The graph FindParents climbs\<close>

text \<open>
  \<open>(p, r)\<close> is an edge when \<open>p\<close> stands in \<open>allRefs[r]\<close>: a call of \<open>FindParents\<close> on \<open>r\<close>
  calls \<open>FindParents\<close> on \<open>p\<close>. A node reaches a cycle when climbing from it can arrive at
  a node that lies on a cycle of such edges.
\<close>

definition referrer_edges :: "ref_map \<Rightarrow> (string \<times> string) set" where
  "referrer_edges allRefs = {(p, r). p \<in> set (index allRefs r)}"

definition reaches_cycle :: "ref_map \<Rightarrow> string \<Rightarrow> bool" where
  "reaches_cycle allRefs referrent \<longleftrightarrow>
     (\<exists>c. (c, referrent) \<in> (referrer_edges allRefs)\<^sup>* \<and> (c, c) \<in> (referrer_edges allRefs)\<^sup>+)"

section \<open>Properties\<close>

subsection \<open>InvertRefs\<close>

lemma count_list_replicate: "count_list (replicate n k) a = (if k = a then n else 0)"
  by (induction n) auto

lemma index_invert_inner:
  "index (invert_inner k v m0) b = index m0 b @ replicate (count_list v b) k"
proof (induction v arbitrary: m0)
  case Nil
  then show ?case by simp
next
  case (Cons e v)
  then show ?case by (simp add: index_def)
qed

lemma dom_invert_inner: "dom (invert_inner k v m0) = dom m0 \<union> set v"
  by (induction v arbitrary: m0) auto

lemma dom_invert_outer: "dom (invert_outer refMap m0) = dom m0 \<union> (\<Union>kv \<in> set refMap. set (snd kv))"
  by (induction refMap m0 rule: invert_outer.induct) (auto simp: dom_invert_inner)

lemma count_index_invert_outer:
  "count_list (index (invert_outer refMap m0) b) a =
     count_list (index m0 b) a + (\<Sum>kv \<leftarrow> refMap. if fst kv = a then count_list (snd kv) b else 0)"
  by (induction refMap m0 rule: invert_outer.induct)
     (auto simp: index_invert_inner count_list_replicate)

lemma sum_list_distinct_key:
  "distinct (map fst refMap) \<Longrightarrow>
     (\<Sum>kv \<leftarrow> refMap. if fst kv = a then count_list (snd kv) b else 0) = count_list (forward refMap a) b"
proof (induction refMap)
  case Nil
  then show ?case by (simp add: forward_def index_def)
next
  case (Cons kv refMap)
  obtain k v where kv: "kv = (k, v)" by (cases kv)
  show ?case
  proof (cases "k = a")
    case True
    with Cons.prems kv have "a \<notin> fst ` set refMap" by auto
    then have "(\<Sum>kv \<leftarrow> refMap. if fst kv = a then count_list (snd kv) b else 0) = 0"
      by (induction refMap) auto
    with True kv show ?thesis by (simp add: forward_def index_def)
  next
    case False
    with Cons kv show ?thesis by (simp add: forward_def index_def)
  qed
qed

lemma nonempty_invert_inner:
  "(\<And>b l. m0 b = Some l \<Longrightarrow> l \<noteq> []) \<Longrightarrow> invert_inner k v m0 b = Some l \<Longrightarrow> l \<noteq> []"
proof (induction v arbitrary: m0)
  case Nil
  then show ?case by simp
next
  case (Cons e v)
  show ?case
  proof (rule Cons.IH [OF _ Cons.prems(2) [simplified]])
    fix b' l'
    assume "(m0(e \<mapsto> index m0 e @ [k])) b' = Some l'"
    then show "l' \<noteq> []" using Cons.prems(1) by (auto split: if_splits)
  qed
qed

lemma nonempty_invert_outer:
  "(\<And>b l. m0 b = Some l \<Longrightarrow> l \<noteq> []) \<Longrightarrow> invert_outer refMap m0 b = Some l \<Longrightarrow> l \<noteq> []"
proof (induction refMap m0 rule: invert_outer.induct)
  case (1 m0)
  then show ?case by simp
next
  case (2 k v refMap m0)
  show ?case
  proof (rule "2.IH" [OF _ "2.prems"(2) [simplified]])
    fix b' l'
    assume "invert_inner k v m0 b' = Some l'"
    then show "l' \<noteq> []" using nonempty_invert_inner [of m0 k v b' l'] "2.prems"(1) by blast
  qed
qed

lemma forward_entry:
  "distinct (map fst refMap) \<Longrightarrow> (k, v) \<in> set refMap \<Longrightarrow> forward refMap k = v"
  by (simp add: forward_def index_def)

lemma forward_member:
  "b \<in> set (forward refMap a) \<Longrightarrow> \<exists>v. (a, v) \<in> set refMap \<and> b \<in> set v"
proof -
  assume b: "b \<in> set (forward refMap a)"
  then obtain v where v: "map_of refMap a = Some v"
    by (cases "map_of refMap a") (auto simp: forward_def index_def)
  with b have "b \<in> set v" by (simp add: forward_def index_def)
  with map_of_SomeD [OF v] show ?thesis by blast
qed

lemma dom_InvertRefs: "dom (InvertRefs refMap) = (\<Union>kv \<in> set refMap. set (snd kv))"
  by (simp add: InvertRefs_def dom_invert_outer)

lemma count_InvertRefs:
  "distinct (map fst refMap) \<Longrightarrow>
     count_list (index (InvertRefs refMap) b) a = count_list (forward refMap a) b"
proof -
  assume d: "distinct (map fst refMap)"
  have "index Map.empty b = []" by (simp add: index_def)
  then show ?thesis
    by (simp add: InvertRefs_def count_index_invert_outer sum_list_distinct_key [OF d])
qed

lemma member_InvertRefs:
  assumes "distinct (map fst refMap)"
  shows "a \<in> set (index (InvertRefs refMap) b) \<longleftrightarrow> b \<in> set (forward refMap a)"
  using count_InvertRefs [OF assms, of b a]
    count_list_0_iff [of "index (InvertRefs refMap) b" a]
    count_list_0_iff [of "forward refMap a" b] by simp

lemma forward_perm:
  assumes "distinct (map fst refMap)" and "mset refMap' = mset refMap"
  shows "distinct (map fst refMap') \<and> forward refMap' = forward refMap"
proof -
  have "mset (map fst refMap') = mset (map fst refMap)"
    using assms(2) by (metis mset_map)
  then have d: "distinct (map fst refMap')"
    using assms(1) by (metis mset_eq_imp_distinct_iff)
  have "set refMap' = set refMap" using assms(2) by (metis mset_eq_setD)
  then have "map_of refMap' = map_of refMap"
    using d assms(1) by (simp add: map_of_inject_set)
  then have "forward refMap' = forward refMap" by (intro ext) (simp add: forward_def)
  with d show ?thesis by simp
qed

text \<open>
  C4. \<open>InvertRefs\<close> is a function of the forward map. For a forward map \<open>refMap\<close> (a Go
  map: its keys are distinct), \<open>a\<close> stands in the reverse list of \<open>b\<close> exactly as often as
  \<open>b\<close> stands in \<open>refMap[a]\<close>, duplicates of one source included; so an element of the
  reverse list of \<open>b\<close> is a source whose list holds \<open>b\<close>; a node is a key of the result
  only if some source refers to it; and the reverse lists are the same up to order
  whatever order the \<open>range\<close> loop takes.
\<close>

theorem InvertRefs_multiplicity:
  assumes "distinct (map fst refMap)"
  shows "count_list (index (InvertRefs refMap) b) a = count_list (forward refMap a) b
       \<and> (a \<in> set (index (InvertRefs refMap) b) \<longleftrightarrow> b \<in> set (forward refMap a))
       \<and> (b \<in> dom (InvertRefs refMap) \<longleftrightarrow> (\<exists>a. b \<in> set (forward refMap a)))
       \<and> (\<forall>refMap'. mset refMap' = mset refMap \<longrightarrow>
             mset (index (InvertRefs refMap') b) = mset (index (InvertRefs refMap) b))"
proof (intro conjI allI impI)
  show c: "count_list (index (InvertRefs refMap) b) a = count_list (forward refMap a) b"
    using assms by (rule count_InvertRefs)
  show "a \<in> set (index (InvertRefs refMap) b) \<longleftrightarrow> b \<in> set (forward refMap a)"
    using c count_list_0_iff [of "index (InvertRefs refMap) b" a]
      count_list_0_iff [of "forward refMap a" b] by simp
  show "b \<in> dom (InvertRefs refMap) \<longleftrightarrow> (\<exists>a. b \<in> set (forward refMap a))"
  proof
    assume "b \<in> dom (InvertRefs refMap)"
    then obtain k v where "(k, v) \<in> set refMap" "b \<in> set v"
      by (auto simp: dom_InvertRefs)
    then have "b \<in> set (forward refMap k)" using assms by (simp add: forward_entry)
    then show "\<exists>a. b \<in> set (forward refMap a)" ..
  next
    assume "\<exists>a. b \<in> set (forward refMap a)"
    then obtain a' v where "(a', v) \<in> set refMap" "b \<in> set v"
      using forward_member by blast
    then show "b \<in> dom (InvertRefs refMap)"
      unfolding dom_InvertRefs by force
  qed
next
  fix refMap'
  assume p: "mset refMap' = mset refMap"
  have fp: "distinct (map fst refMap')" "forward refMap' = forward refMap"
    using forward_perm [OF assms p] by simp_all
  show "mset (index (InvertRefs refMap') b) = mset (index (InvertRefs refMap) b)"
  proof (rule multiset_eqI)
    fix x
    show "count (mset (index (InvertRefs refMap') b)) x = count (mset (index (InvertRefs refMap) b)) x"
      using count_InvertRefs [OF assms, of b x] count_InvertRefs [OF fp(1), of b x] fp(2)
      by (simp add: count_mset)
  qed
qed

theorem InvertRefs_multiplicity_witness:
  "distinct (map fst sample_refMap)
   \<and> count_list (index (InvertRefs sample_refMap) ''elem1'') ''b'' = 2
   \<and> count_list (forward sample_refMap ''b'') ''elem1'' = 2
   \<and> ''a'' \<in> set (index (InvertRefs sample_refMap) ''elem2'')
   \<and> ''elem1'' \<in> dom (InvertRefs sample_refMap)"
proof -
  have d: "distinct (map fst sample_refMap)" by (simp add: sample_refMap_def)
  have fb: "forward sample_refMap ''b'' = [''elem1'', ''elem1'']"
    by (simp add: forward_def index_def sample_refMap_def)
  have fa: "forward sample_refMap ''a'' = [''elem1'', ''elem2'']"
    by (simp add: forward_def index_def sample_refMap_def)
  have c1: "count_list (forward sample_refMap ''b'') ''elem1'' = 2"
    by (simp add: fb)
  have c2: "count_list (index (InvertRefs sample_refMap) ''elem1'') ''b'' = 2"
    using InvertRefs_multiplicity [OF d, of "''elem1''" "''b''"] c1 by simp
  have m: "''a'' \<in> set (index (InvertRefs sample_refMap) ''elem2'')"
    using InvertRefs_multiplicity [OF d, of "''elem2''" "''a''"] fa by simp
  have "''elem1'' \<in> set (forward sample_refMap ''a'')" by (simp add: fa)
  then have k: "''elem1'' \<in> dom (InvertRefs sample_refMap)"
    using InvertRefs_multiplicity [OF d, of "''elem1''" "''a''"] by blast
  from d c1 c2 m k show ?thesis by blast
qed

text \<open>
  C10. No key of the map \<open>InvertRefs\<close> returns has an empty referrer list: a node is a key
  exactly when some source of the forward map refers to it, and exactly when its referrer
  list is not empty. A key with an empty list does not occur.
\<close>

theorem InvertRefs_keys_nonempty:
  "InvertRefs refMap b \<noteq> Some []
   \<and> (b \<in> dom (InvertRefs refMap) \<longleftrightarrow> (\<exists>a v. (a, v) \<in> set refMap \<and> b \<in> set v))
   \<and> (b \<in> dom (InvertRefs refMap) \<longleftrightarrow> index (InvertRefs refMap) b \<noteq> [])"
proof -
  have ne: "InvertRefs refMap b \<noteq> Some []"
    using nonempty_invert_outer [of Map.empty refMap b "[]"] by (auto simp: InvertRefs_def)
  have k: "b \<in> dom (InvertRefs refMap) \<longleftrightarrow> (\<exists>a v. (a, v) \<in> set refMap \<and> b \<in> set v)"
    unfolding dom_InvertRefs by force
  have "b \<in> dom (InvertRefs refMap) \<longleftrightarrow> index (InvertRefs refMap) b \<noteq> []"
    using ne by (auto simp: index_def dom_def split: option.splits)
  with ne k show ?thesis by blast
qed

theorem InvertRefs_keys_nonempty_witness:
  "InvertRefs sample_refMap ''elem1'' = Some [''a'', ''b'', ''b'']
   \<and> ''elem1'' \<in> dom (InvertRefs sample_refMap)
   \<and> InvertRefs sample_refMap ''g'' = None
   \<and> ''g'' \<notin> dom (InvertRefs sample_refMap)"
proof -
  have e: "InvertRefs sample_refMap ''elem1'' = Some [''a'', ''b'', ''b'']"
    by (simp add: InvertRefs_def sample_refMap_def index_def)
  have g: "InvertRefs sample_refMap ''g'' = None"
    by (simp add: InvertRefs_def sample_refMap_def index_def)
  have "index (InvertRefs sample_refMap) ''elem1'' \<noteq> []" by (simp add: index_def e)
  then have k: "''elem1'' \<in> dom (InvertRefs sample_refMap)"
    using InvertRefs_keys_nonempty [of sample_refMap "''elem1''"] by blast
  have "index (InvertRefs sample_refMap) ''g'' = []" by (simp add: index_def g)
  then have n: "''g'' \<notin> dom (InvertRefs sample_refMap)"
    using InvertRefs_keys_nonempty [of sample_refMap "''g''"] by blast
  from e k g n show ?thesis by blast
qed

subsection \<open>GetKustomizationRefs\<close>

lemma refs_loop_append:
  "refs_loop env b p (pre @ rs) refs =
     (case refs_loop env b p pre refs of Inl e \<Rightarrow> Inl e | Inr refs' \<Rightarrow> refs_loop env b p rs refs')"
  by (induction pre arbitrary: refs) (auto split: sum.splits)

lemma refs_loop_Inr_iff:
  "refs_loop env b p rs refs = Inr out \<longleftrightarrow>
     (\<exists>xs. map (refs_entry env b p) rs = map Inr xs \<and> out = refs @ xs)"
proof (induction rs arbitrary: refs)
  case Nil
  then show ?case by auto
next
  case (Cons r rs)
  show ?case
  proof (cases "refs_entry env b p r")
    case (Inl e)
    then show ?thesis by (auto simp: map_eq_Cons_conv)
  next
    case (Inr x)
    have "(\<exists>xs. map (refs_entry env b p) rs = map Inr xs \<and> out = (refs @ [x]) @ xs) \<longleftrightarrow>
          (\<exists>ys. map (refs_entry env b p) (r # rs) = map Inr ys \<and> out = refs @ ys)"
      (is "?L \<longleftrightarrow> ?R")
    proof
      assume ?L
      then obtain xs where "map (refs_entry env b p) rs = map Inr xs" "out = (refs @ [x]) @ xs"
        by blast
      with Inr have "map (refs_entry env b p) (r # rs) = map Inr (x # xs) \<and> out = refs @ (x # xs)"
        by simp
      then show ?R by blast
    next
      assume ?R
      then obtain ys where ys: "map (refs_entry env b p) (r # rs) = map Inr ys" "out = refs @ ys"
        by blast
      then obtain y xs where "ys = y # xs" by (cases ys) auto
      with ys Inr have "map (refs_entry env b p) rs = map Inr xs \<and> out = (refs @ [x]) @ xs"
        by auto
      then show ?L by blast
    qed
    with Inr Cons.IH [of "refs @ [x]"] show ?thesis by simp
  qed
qed

lemma refs_loop_prefix:
  "map (refs_entry env b p) pre = map Inr xs \<Longrightarrow>
     refs_loop env b p (pre @ rs) refs = refs_loop env b p rs (refs @ xs)"
proof -
  assume "map (refs_entry env b p) pre = map Inr xs"
  then have "refs_loop env b p pre refs = Inr (refs @ xs)"
    using refs_loop_Inr_iff [of env b p pre refs "refs @ xs"] by blast
  then show ?thesis by (simp add: refs_loop_append)
qed

lemma GetKustomizationRefs_parsed:
  assumes "KustomizationExists env path = (True, f)"
    and "ioutil_ReadFile env (filepath_Abs env (filepath_Join env path f)) = Inr yamlFile"
    and "yaml_Unmarshal env yamlFile = Inr k"
  shows "GetKustomizationRefs env basePath path =
           refs_loop env basePath path (Resources k @ Components k @ PatchesStrategicMerge k) []"
  using assms by (simp add: GetKustomizationRefs_def)

lemma KustomizationExists_cases:
  "KustomizationExists env path =
     (if utils_Exists env (filepath_Join env path ''kustomization.yaml'')
        then (True, ''kustomization.yaml'')
      else if utils_Exists env (filepath_Join env path ''kustomization.yml'')
        then (True, ''kustomization.yml'')
      else (False, ''''))"
  by (simp add: KustomizationExists_def)

lemma GetKustomizationRefs_not_found:
  "\<not> fst (KustomizationExists env path) \<Longrightarrow>
     GetKustomizationRefs env basePath path = Inl (NoKustomizationFileFound path)"
  by (cases "KustomizationExists env path") (simp add: GetKustomizationRefs_def)

lemma refs_entry_not_NoFile: "refs_entry env b p r \<noteq> Inl (NoKustomizationFileFound q)"
  by (auto simp: refs_entry_def Let_def split: sum.splits prod.splits if_splits)

lemma refs_loop_not_NoFile: "refs_loop env b p rs refs \<noteq> Inl (NoKustomizationFileFound q)"
proof (induction rs arbitrary: refs)
  case Nil
  then show ?case by simp
next
  case (Cons r rs)
  then show ?case using refs_entry_not_NoFile [of env b p r q] by (auto split: sum.splits)
qed

lemma GetKustomizationRefs_found:
  "fst (KustomizationExists env path) \<Longrightarrow>
     GetKustomizationRefs env basePath path \<noteq> Inl (NoKustomizationFileFound q)"
  using refs_loop_not_NoFile
  by (cases "KustomizationExists env path")
     (auto simp: GetKustomizationRefs_def Let_def split: sum.splits)

lemma refs_entry_missing:
  "os_Stat env (filepath_Join env path r) = Inl err \<Longrightarrow>
     refs_entry env basePath path r =
       (case filepath_Rel env basePath (filepath_Join env path r) of
          Inl e \<Rightarrow> Inl (ExternalError e) | Inr rel \<Rightarrow> Inr rel)"
  by (simp add: refs_entry_def split: sum.splits)

text \<open>
  C3. For a unit that is found, read and decoded into a document with resource list \<open>R\<close>,
  component list \<open>C\<close> and patch list \<open>P\<close>, \<open>GetKustomizationRefs\<close> returns the list \<open>refs\<close>
  exactly when \<open>refs\<close> is the list of the identifiers the entries of \<open>R @ C @ P\<close> resolve to,
  entry by entry in that order (\<open>refs_entry\<close> is what the loop does with one entry).
\<close>

theorem GetKustomizationRefs_in_order:
  assumes "KustomizationExists env path = (True, f)"
    and "ioutil_ReadFile env (filepath_Abs env (filepath_Join env path f)) = Inr yamlFile"
    and "yaml_Unmarshal env yamlFile = Inr k"
  shows "GetKustomizationRefs env basePath path = Inr refs \<longleftrightarrow>
           map (refs_entry env basePath path)
             (Resources k @ Components k @ PatchesStrategicMerge k) = map Inr refs"
  using refs_loop_Inr_iff [of env basePath path _ "[]" refs]
  by (simp add: GetKustomizationRefs_parsed [OF assms])

text \<open>The unit of \<open>/repo/refs\<close>: four resources, one component, one patch.\<close>

theorem GetKustomizationRefs_in_order_witness:
  "KustomizationExists repo_env ''/repo/refs'' = (True, ''kustomization.yaml'')
   \<and> ioutil_ReadFile repo_env
        (filepath_Abs repo_env (filepath_Join repo_env ''/repo/refs'' ''kustomization.yaml'')) =
       Inr ''{resources: [pod.yaml, deployment.yaml, ../a, remote.yaml], components: [components], patchesStrategicMerge: [release-patch.yaml]}''
   \<and> yaml_Unmarshal repo_env
        ''{resources: [pod.yaml, deployment.yaml, ../a, remote.yaml], components: [components], patchesStrategicMerge: [release-patch.yaml]}'' =
       Inr \<lparr>Resources = [''pod.yaml'', ''deployment.yaml'', ''../a'', ''remote.yaml''],
            Components = [''components''],
            PatchesStrategicMerge = [''release-patch.yaml'']\<rparr>
   \<and> GetKustomizationRefs repo_env ''/repo'' ''/repo/refs'' =
       Inr [''refs/pod.yaml'', ''refs/deployment.yaml'', ''a/kustomization.yaml'',
            ''refs/remote.yaml'', ''refs/components/kustomization.yml'',
            ''refs/release-patch.yaml'']"
proof -
  let ?bytes = "''{resources: [pod.yaml, deployment.yaml, ../a, remote.yaml], components: [components], patchesStrategicMerge: [release-patch.yaml]}''"
  let ?k = "\<lparr>Resources = [''pod.yaml'', ''deployment.yaml'', ''../a'', ''remote.yaml''],
            Components = [''components''],
            PatchesStrategicMerge = [''release-patch.yaml'']\<rparr>"
  have a: "KustomizationExists repo_env ''/repo/refs'' = (True, ''kustomization.yaml'')"
    by code_simp
  have b: "ioutil_ReadFile repo_env
        (filepath_Abs repo_env (filepath_Join repo_env ''/repo/refs'' ''kustomization.yaml'')) = Inr ?bytes"
    by code_simp
  have c: "yaml_Unmarshal repo_env ?bytes = Inr ?k"
    by code_simp
  have d: "map (refs_entry repo_env ''/repo'' ''/repo/refs'')
             (Resources ?k @ Components ?k @ PatchesStrategicMerge ?k) =
           map Inr [''refs/pod.yaml'', ''refs/deployment.yaml'', ''a/kustomization.yaml'',
            ''refs/remote.yaml'', ''refs/components/kustomization.yml'',
            ''refs/release-patch.yaml'']"
    by code_simp
  from d have "GetKustomizationRefs repo_env ''/repo'' ''/repo/refs'' =
       Inr [''refs/pod.yaml'', ''refs/deployment.yaml'', ''a/kustomization.yaml'',
            ''refs/remote.yaml'', ''refs/components/kustomization.yml'',
            ''refs/release-patch.yaml'']"
    using GetKustomizationRefs_in_order [OF a b c, of "''/repo''"] by blast
  with a b c show ?thesis by blast
qed

text \<open>
  C7. The lookup of a unit in a directory asks for two filenames and no other,
  \<open>kustomization.yaml\<close> first and \<open>kustomization.yml\<close> second, and takes the first that exists.
  \<open>GetKustomizationRefs\<close> on a directory that holds neither returns the error
  "no kustomization file found"; on a directory that holds one it never returns that error.
\<close>

theorem unit_lookup:
  "KustomizationExists env path =
     (if utils_Exists env (filepath_Join env path ''kustomization.yaml'')
        then (True, ''kustomization.yaml'')
      else if utils_Exists env (filepath_Join env path ''kustomization.yml'')
        then (True, ''kustomization.yml'')
      else (False, ''''))
   \<and> (\<not> fst (KustomizationExists env path) \<longrightarrow>
        GetKustomizationRefs env basePath path = Inl (NoKustomizationFileFound path))
   \<and> (fst (KustomizationExists env path) \<longrightarrow>
        (\<forall>q. GetKustomizationRefs env basePath path \<noteq> Inl (NoKustomizationFileFound q)))"
  using KustomizationExists_cases [of env path] GetKustomizationRefs_not_found [of env path basePath] GetKustomizationRefs_found [of env path basePath]
  by blast

text \<open>\<open>/repo/b\<close> holds both names, \<open>/repo/refs/components\<close> only the second, \<open>/repo\<close> neither.\<close>

theorem unit_lookup_witness:
  "KustomizationExists repo_env ''/repo/b'' = (True, ''kustomization.yaml'')
   \<and> utils_Exists repo_env (filepath_Join repo_env ''/repo/b'' ''kustomization.yml'')
   \<and> KustomizationExists repo_env ''/repo/refs/components'' = (True, ''kustomization.yml'')
   \<and> GetKustomizationRefs repo_env ''/repo'' ''/repo/refs/components'' = Inr []
   \<and> KustomizationExists repo_env ''/repo'' = (False, '''')
   \<and> GetKustomizationRefs repo_env ''/repo'' ''/repo'' = Inl (NoKustomizationFileFound ''/repo'')"
proof -
  have b1: "utils_Exists repo_env (filepath_Join repo_env ''/repo/b'' ''kustomization.yaml'')"
    by code_simp
  have b2: "utils_Exists repo_env (filepath_Join repo_env ''/repo/b'' ''kustomization.yml'')"
    by code_simp
  have c1: "\<not> utils_Exists repo_env (filepath_Join repo_env ''/repo/refs/components'' ''kustomization.yaml'')"
    by code_simp
  have c2: "utils_Exists repo_env (filepath_Join repo_env ''/repo/refs/components'' ''kustomization.yml'')"
    by code_simp
  have r1: "\<not> utils_Exists repo_env (filepath_Join repo_env ''/repo'' ''kustomization.yaml'')"
    by code_simp
  have r2: "\<not> utils_Exists repo_env (filepath_Join repo_env ''/repo'' ''kustomization.yml'')"
    by code_simp
  have kb: "KustomizationExists repo_env ''/repo/b'' = (True, ''kustomization.yaml'')"
    using unit_lookup [of repo_env "''/repo/b''"] b1 by simp
  have kc: "KustomizationExists repo_env ''/repo/refs/components'' = (True, ''kustomization.yml'')"
    using unit_lookup [of repo_env "''/repo/refs/components''"] c1 c2 by simp
  have kr: "KustomizationExists repo_env ''/repo'' = (False, '''')"
    using unit_lookup [of repo_env "''/repo''"] r1 r2 by simp
  have gr: "GetKustomizationRefs repo_env ''/repo'' ''/repo'' = Inl (NoKustomizationFileFound ''/repo'')"
    using unit_lookup [of repo_env "''/repo''" "''/repo''"] kr by simp
  have gc: "GetKustomizationRefs repo_env ''/repo'' ''/repo/refs/components'' = Inr []"
    by code_simp
  from kb b2 kc gc kr gr show ?thesis by blast
qed

lemma refs_entry_directory:
  "os_Stat env (filepath_Join env path r) = Inr True \<Longrightarrow>
     refs_entry env basePath path r =
       (case filepath_Rel env basePath (filepath_Join env path r) of
          Inl e \<Rightarrow> Inl (ExternalError e)
        | Inr rel \<Rightarrow>
            (case KustomizationExists env (filepath_Join env path r) of
               (exists, f) \<Rightarrow>
                 if \<not> exists then Inl NoKustomizationFoundInDir
                 else
                   (case filepath_Rel env basePath
                           (filepath_Join env (filepath_Join env path r) f) of
                      Inl e \<Rightarrow> Inl (ExternalError e)
                    | Inr kustomizationPath \<Rightarrow> Inr kustomizationPath)))"
  by (simp add: refs_entry_def Let_def split: sum.splits)

lemma GetKustomizationRefs_at_entry:
  assumes "KustomizationExists env path = (True, f)"
    and "ioutil_ReadFile env (filepath_Abs env (filepath_Join env path f)) = Inr yamlFile"
    and "yaml_Unmarshal env yamlFile = Inr k"
    and "Resources k @ Components k @ PatchesStrategicMerge k = pre @ r # post"
    and "map (refs_entry env basePath path) pre = map Inr xs"
  shows "GetKustomizationRefs env basePath path =
           (case refs_entry env basePath path r of
              Inl e \<Rightarrow> Inl e
            | Inr x \<Rightarrow> refs_loop env basePath path post (xs @ [x]))"
proof -
  have "GetKustomizationRefs env basePath path = refs_loop env basePath path (pre @ r # post) []"
    using GetKustomizationRefs_parsed [OF assms(1-3)] assms(4) by simp
  also have "\<dots> = refs_loop env basePath path (r # post) xs"
    using refs_loop_prefix [OF assms(5), of "r # post" "[]"] by simp
  finally show ?thesis by simp
qed

text \<open>
  C9, as the code has it. Let the loop of \<open>GetKustomizationRefs\<close> arrive at an entry \<open>r\<close>
  (the entries before it resolved to \<open>xs\<close>) whose path \<open>os.Stat\<close> does not find. If
  \<open>filepath.Rel\<close> gives the path \<open>rel\<close> of the entry relative to the base path, the loop
  appends \<open>rel\<close>, looks no further into it and goes on with the entries after \<open>r\<close>; if those
  resolve to \<open>ys\<close> the call returns \<open>xs @ rel # ys\<close>. If \<open>filepath.Rel\<close> fails, the call
  returns that error: \<open>rel\<close> is computed, and its error returned, before the disk is asked.
\<close>

theorem missing_entry_recorded:
  assumes "KustomizationExists env path = (True, f)"
    and "ioutil_ReadFile env (filepath_Abs env (filepath_Join env path f)) = Inr yamlFile"
    and "yaml_Unmarshal env yamlFile = Inr k"
    and "Resources k @ Components k @ PatchesStrategicMerge k = pre @ r # post"
    and "map (refs_entry env basePath path) pre = map Inr xs"
    and "os_Stat env (filepath_Join env path r) = Inl err"
  shows "(\<forall>rel. filepath_Rel env basePath (filepath_Join env path r) = Inr rel \<longrightarrow>
            GetKustomizationRefs env basePath path =
              refs_loop env basePath path post (xs @ [rel]))
       \<and> (\<forall>rel ys. filepath_Rel env basePath (filepath_Join env path r) = Inr rel
              \<and> map (refs_entry env basePath path) post = map Inr ys \<longrightarrow>
            GetKustomizationRefs env basePath path = Inr (xs @ rel # ys))
       \<and> (\<forall>e. filepath_Rel env basePath (filepath_Join env path r) = Inl e \<longrightarrow>
            GetKustomizationRefs env basePath path = Inl (ExternalError e))"
proof -
  note g = GetKustomizationRefs_at_entry [OF assms(1-5)]
  note m = refs_entry_missing [OF assms(6), of basePath]
  have 1: "GetKustomizationRefs env basePath path = refs_loop env basePath path post (xs @ [rel])"
    if "filepath_Rel env basePath (filepath_Join env path r) = Inr rel" for rel
    using g m that by simp
  have 2: "GetKustomizationRefs env basePath path = Inr (xs @ rel # ys)"
    if "filepath_Rel env basePath (filepath_Join env path r) = Inr rel"
      and "map (refs_entry env basePath path) post = map Inr ys" for rel ys
    using 1 [OF that(1)] refs_loop_Inr_iff [of env basePath path post "xs @ [rel]" "xs @ rel # ys"] that(2)
    by simp
  have 3: "GetKustomizationRefs env basePath path = Inl (ExternalError e)"
    if "filepath_Rel env basePath (filepath_Join env path r) = Inl e" for e
    using g m that by simp
  from 1 2 3 show ?thesis by blast
qed

text \<open>
  C9 as stated fails: the only entry of the unit of \<open>/repo/overlay\<close> is not on disk, and
  with the base path \<open>repo\<close> the call fails, with the error of \<open>filepath.Rel\<close>.
\<close>

theorem missing_entry_counterexample:
  "os_Stat remote_env (filepath_Join remote_env ''/repo/overlay'' ''remote.yaml'') =
     Inl ''stat /repo/overlay/remote.yaml: no such file or directory''
   \<and> GetKustomizationRefs remote_env ''repo'' ''/repo/overlay'' =
     Inl (ExternalError ''Rel: can't make /repo/overlay/remote.yaml relative to repo'')"
  by code_simp

text \<open>The entry \<open>remote.yaml\<close> of the unit of \<open>/repo/refs\<close>, the fourth of six.\<close>

theorem missing_entry_recorded_witness:
  "os_Stat repo_env (filepath_Join repo_env ''/repo/refs'' ''remote.yaml'') =
     Inl ''stat /repo/refs/remote.yaml: no such file or directory''
   \<and> filepath_Rel repo_env ''/repo'' (filepath_Join repo_env ''/repo/refs'' ''remote.yaml'') =
     Inr ''refs/remote.yaml''
   \<and> GetKustomizationRefs repo_env ''/repo'' ''/repo/refs'' =
       Inr [''refs/pod.yaml'', ''refs/deployment.yaml'', ''a/kustomization.yaml'',
            ''refs/remote.yaml'', ''refs/components/kustomization.yml'',
            ''refs/release-patch.yaml'']"
proof -
  let ?bytes = "''{resources: [pod.yaml, deployment.yaml, ../a, remote.yaml], components: [components], patchesStrategicMerge: [release-patch.yaml]}''"
  let ?k = "\<lparr>Resources = [''pod.yaml'', ''deployment.yaml'', ''../a'', ''remote.yaml''],
            Components = [''components''],
            PatchesStrategicMerge = [''release-patch.yaml'']\<rparr>"
  have a: "KustomizationExists repo_env ''/repo/refs'' = (True, ''kustomization.yaml'')"
    by code_simp
  have b: "ioutil_ReadFile repo_env
        (filepath_Abs repo_env (filepath_Join repo_env ''/repo/refs'' ''kustomization.yaml'')) = Inr ?bytes"
    by code_simp
  have c: "yaml_Unmarshal repo_env ?bytes = Inr ?k"
    by code_simp
  have d: "Resources ?k @ Components ?k @ PatchesStrategicMerge ?k =
             [''pod.yaml'', ''deployment.yaml'', ''../a''] @ ''remote.yaml'' #
             [''components'', ''release-patch.yaml'']"
    by simp
  have e: "map (refs_entry repo_env ''/repo'' ''/repo/refs'') [''pod.yaml'', ''deployment.yaml'', ''../a''] =
             map Inr [''refs/pod.yaml'', ''refs/deployment.yaml'', ''a/kustomization.yaml'']"
    by code_simp
  have s: "os_Stat repo_env (filepath_Join repo_env ''/repo/refs'' ''remote.yaml'') =
             Inl ''stat /repo/refs/remote.yaml: no such file or directory''"
    by code_simp
  have r: "filepath_Rel repo_env ''/repo'' (filepath_Join repo_env ''/repo/refs'' ''remote.yaml'') =
             Inr ''refs/remote.yaml''"
    by code_simp
  have p: "map (refs_entry repo_env ''/repo'' ''/repo/refs'') [''components'', ''release-patch.yaml''] =
             map Inr [''refs/components/kustomization.yml'', ''refs/release-patch.yaml'']"
    by code_simp
  have "GetKustomizationRefs repo_env ''/repo'' ''/repo/refs'' =
          Inr ([''refs/pod.yaml'', ''refs/deployment.yaml'', ''a/kustomization.yaml''] @
               ''refs/remote.yaml'' #
               [''refs/components/kustomization.yml'', ''refs/release-patch.yaml''])"
    using missing_entry_recorded [OF a b c d e s] r p by blast
  with s r show ?thesis by simp
qed

text \<open>
  C8, as the code has it. Let the loop of \<open>GetKustomizationRefs\<close> arrive at an entry \<open>r\<close>
  (the entries before it resolved to \<open>xs\<close>) whose path is a directory on disk. If
  \<open>filepath.Rel\<close> gives the path of that directory relative to the base path, then: the call
  returns the error "No Kustomization found in dir" when the directory holds no unit; and
  when it holds the unit file \<open>nested\<close>, the loop appends the path of that file (not of the
  directory) relative to the base path and goes on with the entries after \<open>r\<close>. If either
  call of \<open>filepath.Rel\<close> fails, \<open>GetKustomizationRefs\<close> returns that error.
\<close>

theorem directory_entry:
  assumes "KustomizationExists env path = (True, f)"
    and "ioutil_ReadFile env (filepath_Abs env (filepath_Join env path f)) = Inr yamlFile"
    and "yaml_Unmarshal env yamlFile = Inr k"
    and "Resources k @ Components k @ PatchesStrategicMerge k = pre @ r # post"
    and "map (refs_entry env basePath path) pre = map Inr xs"
    and "os_Stat env (filepath_Join env path r) = Inr True"
  shows "(\<forall>rel. filepath_Rel env basePath (filepath_Join env path r) = Inr rel
              \<and> \<not> fst (KustomizationExists env (filepath_Join env path r)) \<longrightarrow>
            GetKustomizationRefs env basePath path = Inl NoKustomizationFoundInDir)
       \<and> (\<forall>rel nested kustomizationPath.
            filepath_Rel env basePath (filepath_Join env path r) = Inr rel
              \<and> KustomizationExists env (filepath_Join env path r) = (True, nested)
              \<and> filepath_Rel env basePath
                   (filepath_Join env (filepath_Join env path r) nested) = Inr kustomizationPath \<longrightarrow>
            GetKustomizationRefs env basePath path =
              refs_loop env basePath path post (xs @ [kustomizationPath]))
       \<and> (\<forall>e. filepath_Rel env basePath (filepath_Join env path r) = Inl e \<longrightarrow>
            GetKustomizationRefs env basePath path = Inl (ExternalError e))
       \<and> (\<forall>rel nested e.
            filepath_Rel env basePath (filepath_Join env path r) = Inr rel
              \<and> KustomizationExists env (filepath_Join env path r) = (True, nested)
              \<and> filepath_Rel env basePath
                   (filepath_Join env (filepath_Join env path r) nested) = Inl e \<longrightarrow>
            GetKustomizationRefs env basePath path = Inl (ExternalError e))"
proof -
  note g = GetKustomizationRefs_at_entry [OF assms(1-5)]
  note d = refs_entry_directory [OF assms(6), of basePath]
  have 1: "GetKustomizationRefs env basePath path = Inl NoKustomizationFoundInDir"
    if "filepath_Rel env basePath (filepath_Join env path r) = Inr rel"
      and "\<not> fst (KustomizationExists env (filepath_Join env path r))" for rel
    using g d that by (cases "KustomizationExists env (filepath_Join env path r)") simp
  have 2: "GetKustomizationRefs env basePath path =
             refs_loop env basePath path post (xs @ [kustomizationPath])"
    if "filepath_Rel env basePath (filepath_Join env path r) = Inr rel"
      and "KustomizationExists env (filepath_Join env path r) = (True, nested)"
      and "filepath_Rel env basePath
             (filepath_Join env (filepath_Join env path r) nested) = Inr kustomizationPath"
    for rel nested kustomizationPath
    using g d that by simp
  have 3: "GetKustomizationRefs env basePath path = Inl (ExternalError e)"
    if "filepath_Rel env basePath (filepath_Join env path r) = Inl e" for e
    using g d that by simp
  have 4: "GetKustomizationRefs env basePath path = Inl (ExternalError e)"
    if "filepath_Rel env basePath (filepath_Join env path r) = Inr rel"
      and "KustomizationExists env (filepath_Join env path r) = (True, nested)"
      and "filepath_Rel env basePath
             (filepath_Join env (filepath_Join env path r) nested) = Inl e"
    for rel nested e
    using g d that by simp
  from 1 2 3 4 show ?thesis by blast
qed

text \<open>
  C8 as stated fails: \<open>conf\<close> is a directory on disk without a unit, and with the base path
  \<open>repo\<close> the call fails with the error of \<open>filepath.Rel\<close>, not with
  "No Kustomization found in dir".
\<close>

theorem directory_entry_counterexample:
  "os_Stat broken_env (filepath_Join broken_env ''/repo/app'' ''conf'') = Inr True
   \<and> KustomizationExists broken_env (filepath_Join broken_env ''/repo/app'' ''conf'') = (False, '''')
   \<and> GetKustomizationRefs broken_env ''repo'' ''/repo/app'' =
       Inl (ExternalError ''Rel: can't make /repo/app/conf relative to repo'')"
  by code_simp

text \<open>The directory \<open>conf\<close> without a unit, and the directory \<open>../a\<close> with one.\<close>

theorem directory_entry_witness:
  "os_Stat broken_env (filepath_Join broken_env ''/repo/app'' ''conf'') = Inr True
   \<and> filepath_Rel broken_env ''/repo'' (filepath_Join broken_env ''/repo/app'' ''conf'') = Inr ''app/conf''
   \<and> KustomizationExists broken_env (filepath_Join broken_env ''/repo/app'' ''conf'') = (False, '''')
   \<and> GetKustomizationRefs broken_env ''/repo'' ''/repo/app'' = Inl NoKustomizationFoundInDir
   \<and> os_Stat repo_env (filepath_Join repo_env ''/repo/refs'' ''../a'') = Inr True
   \<and> KustomizationExists repo_env (filepath_Join repo_env ''/repo/refs'' ''../a'') =
       (True, ''kustomization.yaml'')
   \<and> GetKustomizationRefs repo_env ''/repo'' ''/repo/refs'' =
       Inr [''refs/pod.yaml'', ''refs/deployment.yaml'', ''a/kustomization.yaml'',
            ''refs/remote.yaml'', ''refs/components/kustomization.yml'',
            ''refs/release-patch.yaml'']"
proof -
  let ?kb = "\<lparr>Resources = [''conf''], Components = [], PatchesStrategicMerge = []\<rparr>"
  have a: "KustomizationExists broken_env ''/repo/app'' = (True, ''kustomization.yaml'')"
    by code_simp
  have b: "ioutil_ReadFile broken_env
        (filepath_Abs broken_env (filepath_Join broken_env ''/repo/app'' ''kustomization.yaml'')) =
        Inr ''resources: [conf]''"
    by code_simp
  have c: "yaml_Unmarshal broken_env ''resources: [conf]'' = Inr ?kb"
    by code_simp
  have d: "Resources ?kb @ Components ?kb @ PatchesStrategicMerge ?kb = [] @ ''conf'' # []"
    by simp
  have e: "map (refs_entry broken_env ''/repo'' ''/repo/app'') [] = map Inr []"
    by simp
  have s: "os_Stat broken_env (filepath_Join broken_env ''/repo/app'' ''conf'') = Inr True"
    by code_simp
  have r: "filepath_Rel broken_env ''/repo'' (filepath_Join broken_env ''/repo/app'' ''conf'') = Inr ''app/conf''"
    by code_simp
  have n: "KustomizationExists broken_env (filepath_Join broken_env ''/repo/app'' ''conf'') = (False, '''')"
    by code_simp
  have g1: "GetKustomizationRefs broken_env ''/repo'' ''/repo/app'' = Inl NoKustomizationFoundInDir"
    using directory_entry [OF a b c d e s] r n by simp
  let ?bytes = "''{resources: [pod.yaml, deployment.yaml, ../a, remote.yaml], components: [components], patchesStrategicMerge: [release-patch.yaml]}''"
  let ?k = "\<lparr>Resources = [''pod.yaml'', ''deployment.yaml'', ''../a'', ''remote.yaml''],
            Components = [''components''],
            PatchesStrategicMerge = [''release-patch.yaml'']\<rparr>"
  have a': "KustomizationExists repo_env ''/repo/refs'' = (True, ''kustomization.yaml'')"
    by code_simp
  have b': "ioutil_ReadFile repo_env
        (filepath_Abs repo_env (filepath_Join repo_env ''/repo/refs'' ''kustomization.yaml'')) = Inr ?bytes"
    by code_simp
  have c': "yaml_Unmarshal repo_env ?bytes = Inr ?k"
    by code_simp
  have d': "Resources ?k @ Components ?k @ PatchesStrategicMerge ?k =
             [''pod.yaml'', ''deployment.yaml''] @ ''../a'' #
             [''remote.yaml'', ''components'', ''release-patch.yaml'']"
    by simp
  have e': "map (refs_entry repo_env ''/repo'' ''/repo/refs'') [''pod.yaml'', ''deployment.yaml''] =
             map Inr [''refs/pod.yaml'', ''refs/deployment.yaml'']"
    by code_simp
  have s': "os_Stat repo_env (filepath_Join repo_env ''/repo/refs'' ''../a'') = Inr True"
    by code_simp
  have r': "filepath_Rel repo_env ''/repo'' (filepath_Join repo_env ''/repo/refs'' ''../a'') = Inr ''a''"
    by code_simp
  have n': "KustomizationExists repo_env (filepath_Join repo_env ''/repo/refs'' ''../a'') =
       (True, ''kustomization.yaml'')"
    by code_simp
  have q': "filepath_Rel repo_env ''/repo''
              (filepath_Join repo_env (filepath_Join repo_env ''/repo/refs'' ''../a'') ''kustomization.yaml'') =
            Inr ''a/kustomization.yaml''"
    by code_simp
  have l': "refs_loop repo_env ''/repo'' ''/repo/refs''
              [''remote.yaml'', ''components'', ''release-patch.yaml'']
              ([''refs/pod.yaml'', ''refs/deployment.yaml''] @ [''a/kustomization.yaml'']) =
            Inr [''refs/pod.yaml'', ''refs/deployment.yaml'', ''a/kustomization.yaml'',
            ''refs/remote.yaml'', ''refs/components/kustomization.yml'',
            ''refs/release-patch.yaml'']"
    by code_simp
  have g2: "GetKustomizationRefs repo_env ''/repo'' ''/repo/refs'' =
       Inr [''refs/pod.yaml'', ''refs/deployment.yaml'', ''a/kustomization.yaml'',
            ''refs/remote.yaml'', ''refs/components/kustomization.yml'',
            ''refs/release-patch.yaml'']"
    using directory_entry [OF a' b' c' d' e' s'] r' n' q' l' by simp
  from s r n g1 s' n' g2 show ?thesis by blast
qed

subsection \<open>BuildRefs\<close>

lemma walk_append:
  "walk env d (pre @ es) m0 =
     (case walk env d pre m0 of Inl e \<Rightarrow> Inl e | Inr m1 \<Rightarrow> walk env d es m1)"
  by (induction pre arbitrary: m0) (auto split: sum.splits)

lemma walk_fn_extractor_fails:
  assumes "fst (KustomizationExists env path)"
    and "filepath_Rel env dirPath path = Inr relPath"
    and "GetKustomizationRefs env dirPath (filepath_Join env dirPath relPath) = Inl e"
  shows "walk_fn env dirPath refMap (path, True, None) = Inl (WithStack e)"
  using assms by (cases "KustomizationExists env path") (simp add: walk_fn_def)

lemma BuildRefs_Inl: "build_forward env dirPath = Inl e \<Longrightarrow> BuildRefs env dirPath = Inl e"
  by (simp add: BuildRefs_def)

text \<open>
  What \<open>BuildRefs\<close> hands to \<open>InvertRefs\<close> is a map: its keys are distinct, and the order
  of the \<open>range\<close> loop is some order of its entries.
\<close>

lemma walk_fn_distinct:
  "distinct (map fst refMap) \<Longrightarrow> walk_fn env dirPath refMap entry = Inr refMap' \<Longrightarrow>
     distinct (map fst refMap')"
  by (cases entry, cases "KustomizationExists env (fst entry)")
     (auto simp: walk_fn_def Let_def AList.distinct_update split: option.splits if_splits sum.splits)

lemma walk_distinct:
  "distinct (map fst refMap) \<Longrightarrow> walk env dirPath entries refMap = Inr refMap' \<Longrightarrow>
     distinct (map fst refMap')"
proof (induction entries arbitrary: refMap)
  case Nil
  then show ?case by simp
next
  case (Cons entry entries)
  from Cons.prems(2) obtain m1
    where m1: "walk_fn env dirPath refMap entry = Inr m1" "walk env dirPath entries m1 = Inr refMap'"
    by (cases "walk_fn env dirPath refMap entry") auto
  from walk_fn_distinct [OF Cons.prems(1) m1(1)] m1(2) show ?case by (rule Cons.IH)
qed

lemma BuildRefs_inverts_a_map:
  assumes "BuildRefs env dirPath = Inr allRefs"
  shows "\<exists>refMap. build_forward env dirPath = Inr refMap
           \<and> distinct (map fst (sort_key (\<lambda>kv. range_rank env (fst kv)) refMap))
           \<and> mset (sort_key (\<lambda>kv. range_rank env (fst kv)) refMap) = mset refMap
           \<and> allRefs = InvertRefs (sort_key (\<lambda>kv. range_rank env (fst kv)) refMap)"
proof -
  from assms obtain refMap
    where r: "build_forward env dirPath = Inr refMap"
      "allRefs = InvertRefs (sort_key (\<lambda>kv. range_rank env (fst kv)) refMap)"
    by (auto simp: BuildRefs_def split: sum.splits)
  from r(1) have d: "distinct (map fst refMap)"
    using walk_distinct [of "[]" env dirPath "filepath_WalkDir env dirPath" refMap]
    by (simp add: build_forward_def)
  have m: "mset (sort_key (\<lambda>kv. range_rank env (fst kv)) refMap) = mset refMap" by simp
  then have "mset (map fst (sort_key (\<lambda>kv. range_rank env (fst kv)) refMap)) = mset (map fst refMap)"
    by (metis mset_map)
  with d have "distinct (map fst (sort_key (\<lambda>kv. range_rank env (fst kv)) refMap))"
    by (metis mset_eq_imp_distinct_iff)
  with r m show ?thesis by blast
qed

text \<open>
  C6. Let the walk of \<open>dirPath\<close> come to a directory that holds a unit, on which
  \<open>GetKustomizationRefs\<close> fails with \<open>e\<close>. Then \<open>BuildRefs\<close> returns no map at all. When the
  walk reaches that directory (the calls before it returned nil), \<open>BuildRefs\<close> returns
  \<open>errors.WithStack(e)\<close>; otherwise it returns the error that ended the walk earlier.
\<close>

theorem BuildRefs_aborts:
  assumes "filepath_WalkDir env dirPath = pre @ (path, True, None) # post"
    and "fst (KustomizationExists env path)"
    and "filepath_Rel env dirPath path = Inr relPath"
    and "GetKustomizationRefs env dirPath (filepath_Join env dirPath relPath) = Inl e"
  shows "(\<forall>refMap. walk env dirPath pre [] = Inr refMap \<longrightarrow>
            BuildRefs env dirPath = Inl (WithStack e))
       \<and> (\<forall>e'. walk env dirPath pre [] = Inl e' \<longrightarrow> BuildRefs env dirPath = Inl e')
       \<and> (\<forall>allRefs. BuildRefs env dirPath \<noteq> Inr allRefs)"
proof -
  have w: "build_forward env dirPath =
             (case walk env dirPath pre [] of
                Inl e' \<Rightarrow> Inl e'
              | Inr refMap \<Rightarrow> Inl (WithStack e))"
    using walk_fn_extractor_fails [OF assms(2-4)]
    by (simp add: build_forward_def assms(1) walk_append split: sum.splits)
  show ?thesis
  proof (cases "walk env dirPath pre []")
    case (Inl e')
    with w have "BuildRefs env dirPath = Inl e'" by (simp add: BuildRefs_Inl)
    with Inl show ?thesis by simp
  next
    case (Inr refMap)
    with w have "BuildRefs env dirPath = Inl (WithStack e)" by (simp add: BuildRefs_Inl)
    with Inr show ?thesis by simp
  qed
qed

text \<open>The unit of \<open>/repo/app\<close>, whose only entry is a directory without a unit.\<close>

theorem BuildRefs_aborts_witness:
  "filepath_WalkDir broken_env ''/repo'' =
     [(''/repo'', True, None)] @ (''/repo/app'', True, None) #
     [(''/repo/app/conf'', True, None), (''/repo/app/kustomization.yaml'', False, None),
      (''/repo/app/pod.yaml'', False, None)]
   \<and> fst (KustomizationExists broken_env ''/repo/app'')
   \<and> filepath_Rel broken_env ''/repo'' ''/repo/app'' = Inr ''app''
   \<and> GetKustomizationRefs broken_env ''/repo'' (filepath_Join broken_env ''/repo'' ''app'') =
       Inl NoKustomizationFoundInDir
   \<and> walk broken_env ''/repo'' [(''/repo'', True, None)] [] = Inr []
   \<and> BuildRefs broken_env ''/repo'' = Inl (WithStack NoKustomizationFoundInDir)"
proof -
  have a: "filepath_WalkDir broken_env ''/repo'' =
     [(''/repo'', True, None)] @ (''/repo/app'', True, None) #
     [(''/repo/app/conf'', True, None), (''/repo/app/kustomization.yaml'', False, None),
      (''/repo/app/pod.yaml'', False, None)]"
    by code_simp
  have b: "fst (KustomizationExists broken_env ''/repo/app'')" by code_simp
  have c: "filepath_Rel broken_env ''/repo'' ''/repo/app'' = Inr ''app''" by code_simp
  have d: "GetKustomizationRefs broken_env ''/repo'' (filepath_Join broken_env ''/repo'' ''app'') =
       Inl NoKustomizationFoundInDir"
    by code_simp
  have e: "walk broken_env ''/repo'' [(''/repo'', True, None)] [] = Inr []" by code_simp
  have "BuildRefs broken_env ''/repo'' = Inl (WithStack NoKustomizationFoundInDir)"
    using BuildRefs_aborts [OF a b c d] e by blast
  with a b c d e show ?thesis by blast
qed

subsection \<open>FindParents\<close>

lemma FindParents_root:
  "(case BuildRefs env basePath of Inl e \<Rightarrow> [] | Inr allRefs \<Rightarrow> index allRefs referrent) = [] \<Longrightarrow>
     FindParents (Suc fuel) env referrent basePath = Some ([referrent], None)"
  by (cases "BuildRefs env basePath") (simp_all add: index_def)

lemma FindParents_climb:
  assumes "BuildRefs env basePath = Inr allRefs" and "index allRefs referrent \<noteq> []"
  shows "FindParents (Suc fuel) env referrent basePath =
           (case parents_loop fuel env (index allRefs referrent) basePath [] of
              None \<Rightarrow> None
            | Some parents \<Rightarrow> Some (parents, None))"
  using assms by simp

text \<open>Whatever \<open>FindParents\<close> returns, the error it returns is nil.\<close>

lemma FindParents_no_error:
  "FindParents fuel env referrent basePath = Some (parents, err) \<Longrightarrow> err = None"
proof (cases fuel)
  case 0
  assume "FindParents fuel env referrent basePath = Some (parents, err)"
  with 0 show ?thesis by simp
next
  case (Suc n)
  assume r: "FindParents fuel env referrent basePath = Some (parents, err)"
  show ?thesis
  proof (cases "BuildRefs env basePath")
    case (Inl e)
    with r Suc show ?thesis by (simp add: index_def)
  next
    case (Inr allRefs)
    with r Suc show ?thesis by (auto simp: Let_def split: if_splits option.splits)
  qed
qed

lemma parents_loop_None:
  "y \<in> set refs \<Longrightarrow> FindParents fuel env y basePath = None \<Longrightarrow>
     parents_loop fuel env refs basePath parents = None"
proof (induction refs arbitrary: parents)
  case Nil
  then show ?case by simp
next
  case (Cons x refs)
  show ?case
  proof (cases "FindParents fuel env x basePath")
    case None
    then show ?thesis by simp
  next
    case (Some res)
    with Cons.prems have "y \<in> set refs" by auto
    with Cons.IH Cons.prems(2) Some show ?thesis by (cases res) simp
  qed
qed

lemma cycle_step:
  assumes "reaches_cycle allRefs x"
  shows "\<exists>y. y \<in> set (index allRefs x) \<and> reaches_cycle allRefs y"
proof -
  let ?R = "referrer_edges allRefs"
  from assms obtain c where c: "(c, x) \<in> ?R\<^sup>*" "(c, c) \<in> ?R\<^sup>+"
    unfolding reaches_cycle_def by blast
  have "(c, x) \<in> ?R\<^sup>+" using trancl_rtrancl_trancl [OF c(2) c(1)] .
  from tranclD2 [OF this] obtain y where y: "(c, y) \<in> ?R\<^sup>*" "(y, x) \<in> ?R"
    by blast
  from y(1) c(2) have "reaches_cycle allRefs y" unfolding reaches_cycle_def by blast
  moreover from y(2) have "y \<in> set (index allRefs x)" by (simp add: referrer_edges_def)
  ultimately show ?thesis by blast
qed

lemma FindParents_diverges:
  assumes "BuildRefs env basePath = Inr allRefs"
  shows "reaches_cycle allRefs x \<Longrightarrow> FindParents fuel env x basePath = None"
proof (induction fuel arbitrary: x)
  case 0
  then show ?case by simp
next
  case (Suc fuel)
  from cycle_step [OF Suc.prems] obtain y
    where y: "y \<in> set (index allRefs x)" "reaches_cycle allRefs y" by blast
  then have ne: "index allRefs x \<noteq> []" by auto
  have "parents_loop fuel env (index allRefs x) basePath [] = None"
    using parents_loop_None [OF y(1) Suc.IH [OF y(2)]] .
  then show ?case using FindParents_climb [OF assms ne, of fuel] by simp
qed

lemma parents_loop_returns:
  "(\<And>p. p \<in> set refs \<Longrightarrow>
       \<exists>fuel ps. \<forall>k. FindParents (fuel + k) env p basePath = Some (ps, None)) \<Longrightarrow>
   \<exists>fuel out. \<forall>k. parents_loop (fuel + k) env refs basePath parents = Some out"
proof (induction refs arbitrary: parents)
  case Nil
  then show ?case by simp
next
  case (Cons p refs)
  from Cons.prems [of p] obtain f1 ps
    where f1: "\<And>k. FindParents (f1 + k) env p basePath = Some (ps, None)" by auto
  have "\<exists>fuel out. \<forall>k. parents_loop (fuel + k) env refs basePath (parents @ ps) = Some out"
    by (rule Cons.IH) (simp add: Cons.prems)
  then obtain f2 out
    where f2: "\<And>k. parents_loop (f2 + k) env refs basePath (parents @ ps) = Some out" by auto
  have "parents_loop ((f1 + f2) + k) env (p # refs) basePath parents = Some out" for k
  proof -
    have a: "FindParents (f1 + f2 + k) env p basePath = Some (ps, None)"
      using f1 [of "f2 + k"] by (simp add: add.assoc)
    have b: "parents_loop (f1 + f2 + k) env refs basePath (parents @ ps) = Some out"
      using f2 [of "f1 + k"] by (simp add: add.assoc add.left_commute)
    from a b show ?thesis by simp
  qed
  then show ?case by blast
qed

lemma finite_referrer_edges:
  assumes "BuildRefs env basePath = Inr allRefs"
  shows "finite (referrer_edges allRefs)"
proof -
  from assms obtain refMap where "allRefs = InvertRefs refMap"
    by (auto simp: BuildRefs_def split: sum.splits)
  then have fd: "finite (dom allRefs)" by (simp add: dom_InvertRefs)
  have "referrer_edges allRefs \<subseteq> (\<Union>r \<in> dom allRefs. set (index allRefs r)) \<times> dom allRefs"
  proof
    fix e
    assume "e \<in> referrer_edges allRefs"
    then obtain p r where e: "e = (p, r)" "p \<in> set (index allRefs r)"
      by (auto simp: referrer_edges_def)
    then have "r \<in> dom allRefs" by (cases "allRefs r") (auto simp: index_def)
    with e show "e \<in> (\<Union>r \<in> dom allRefs. set (index allRefs r)) \<times> dom allRefs" by blast
  qed
  moreover have "finite ((\<Union>r \<in> dom allRefs. set (index allRefs r)) \<times> dom allRefs)"
    using fd by simp
  ultimately show ?thesis by (rule finite_subset)
qed

lemma FindParents_returns:
  assumes b: "BuildRefs env basePath = Inr allRefs"
    and n: "\<not> reaches_cycle allRefs referrent"
  shows "\<exists>fuel parents. \<forall>k. FindParents (fuel + k) env referrent basePath = Some (parents, None)"
proof -
  let ?R = "referrer_edges allRefs"
  let ?A = "{x. (x, referrent) \<in> ?R\<^sup>*}"
  let ?R' = "{(p, x). (p, x) \<in> ?R \<and> x \<in> ?A}"
  have sub: "?R' \<subseteq> ?R" by auto
  have fin: "finite ?R'" using finite_subset [OF sub finite_referrer_edges [OF b]] .
  have acyc: "acyclic ?R'"
  proof (rule acyclicI, rule allI, rule notI)
    fix x
    assume c: "(x, x) \<in> ?R'\<^sup>+"
    have "(x, x) \<in> ?R\<^sup>+" using trancl_mono [OF c sub] .
    moreover from tranclD2 [OF c] obtain z where "(z, x) \<in> ?R'" by blast
    then have "(x, referrent) \<in> ?R\<^sup>*" by simp
    ultimately have "reaches_cycle allRefs referrent" unfolding reaches_cycle_def by blast
    with n show False by simp
  qed
  have wf: "wf ?R'" using finite_acyclic_wf [OF fin acyc] .
  have "x \<in> ?A \<longrightarrow>
        (\<exists>fuel parents. \<forall>k. FindParents (fuel + k) env x basePath = Some (parents, None))" for x
  proof (induction x rule: wf_induct_rule [OF wf])
    case (1 x)
    show ?case
    proof
      assume xa: "x \<in> ?A"
      show "\<exists>fuel parents. \<forall>k. FindParents (fuel + k) env x basePath = Some (parents, None)"
      proof (cases "index allRefs x = []")
        case True
        then have "FindParents (Suc k) env x basePath = Some ([x], None)" for k
          using FindParents_root [where env = env and basePath = basePath and referrent = x and fuel = k] b
          by simp
        then have "\<forall>k. FindParents (1 + k) env x basePath = Some ([x], None)" by simp
        then show ?thesis by blast
      next
        case False
        have "\<exists>fuel ps. \<forall>k. FindParents (fuel + k) env p basePath = Some (ps, None)"
          if "p \<in> set (index allRefs x)" for p
        proof -
          from that have e: "(p, x) \<in> ?R" by (simp add: referrer_edges_def)
          with xa have "(p, x) \<in> ?R'" by simp
          moreover from xa have "(x, referrent) \<in> ?R\<^sup>*" by simp
          with e have "(p, referrent) \<in> ?R\<^sup>*" by (rule converse_rtrancl_into_rtrancl)
          then have "p \<in> ?A" by simp
          ultimately show ?thesis using "1.IH" [of p] by blast
        qed
        from parents_loop_returns [of "index allRefs x" env basePath "[]", OF this]
        obtain fuel out
          where l: "\<And>k. parents_loop (fuel + k) env (index allRefs x) basePath [] = Some out"
          by auto
        have "FindParents (Suc fuel + k) env x basePath = Some (out, None)" for k
          using FindParents_climb [OF b False, of "fuel + k"] l [of k] by simp
        then show ?thesis by blast
      qed
    qed
  qed
  then show ?thesis by blast
qed

text \<open>A call that returns within some depth returns the same within any greater depth.\<close>

lemma parents_loop_mono_step:
  assumes "\<And>r res. FindParents n env r b = Some res \<Longrightarrow> FindParents (Suc n) env r b = Some res"
  shows "parents_loop n env refs b acc = Some out \<Longrightarrow>
           parents_loop (Suc n) env refs b acc = Some out"
proof (induction refs arbitrary: acc)
  case Nil
  then show ?case by simp
next
  case (Cons x refs)
  from Cons.prems obtain p e where x: "FindParents n env x b = Some (p, e)"
    by (cases "FindParents n env x b") auto
  with Cons.prems have "parents_loop n env refs b (acc @ p) = Some out" by simp
  then have "parents_loop (Suc n) env refs b (acc @ p) = Some out" by (rule Cons.IH)
  moreover have "FindParents (Suc n) env x b = Some (p, e)" using assms [OF x] .
  ultimately show ?case by (simp only: parents_loop.simps option.case prod.case)
qed

lemma FindParents_mono_step:
  "FindParents n env r b = Some res \<Longrightarrow> FindParents (Suc n) env r b = Some res"
proof (induction n arbitrary: r res)
  case 0
  then show ?case by simp
next
  case (Suc n)
  show ?case
  proof (cases "BuildRefs env b")
    case (Inl e)
    with Suc.prems show ?thesis by (simp add: index_def)
  next
    case (Inr allRefs)
    show ?thesis
    proof (cases "index allRefs r = []")
      case True
      with Inr Suc.prems show ?thesis by simp
    next
      case False
      from Suc.prems obtain out
        where o: "parents_loop n env (index allRefs r) b [] = Some out" "res = (out, None)"
        using FindParents_climb [OF Inr False, of n]
        by (cases "parents_loop n env (index allRefs r) b []") auto
      have "parents_loop (Suc n) env (index allRefs r) b [] = Some out"
        using parents_loop_mono_step [OF Suc.IH o(1)] .
      with o(2) show ?thesis using FindParents_climb [OF Inr False, of "Suc n"] by simp
    qed
  qed
qed

lemma FindParents_mono:
  "FindParents n env r b = Some res \<Longrightarrow> FindParents (n + k) env r b = Some res"
  by (induction k) (simp_all add: FindParents_mono_step del: FindParents.simps)

lemma acyclic_no_cycle: "acyclic (referrer_edges allRefs) \<Longrightarrow> \<not> reaches_cycle allRefs referrent"
  by (auto simp: acyclic_def reaches_cycle_def)

text \<open>On a tree that does not change, \<open>FindParents_at\<close> returns what \<open>FindParents\<close> returns.\<close>

lemma parents_loop_at_const:
  assumes "\<And>t r. map_option fst (FindParents_at fuel (\<lambda>_. env) t r b) = FindParents fuel env r b"
  shows "map_option fst (parents_loop_at fuel (\<lambda>_. env) t refs b acc) = parents_loop fuel env refs b acc"
proof (induction refs arbitrary: t acc)
  case Nil
  then show ?case by simp
next
  case (Cons x refs)
  show ?case
  proof (cases "FindParents_at fuel (\<lambda>_. env) t x b")
    case None
    with assms [of t x] have "FindParents fuel env x b = None" by simp
    with None show ?thesis by simp
  next
    case (Some res)
    obtain p e t' where res: "res = ((p, e), t')" by (cases res) auto
    with Some assms [of t x] have "FindParents fuel env x b = Some (p, e)" by simp
    with Some res Cons.IH [of t' "acc @ p"] show ?thesis by simp
  qed
qed

lemma FindParents_at_const:
  "map_option fst (FindParents_at fuel (\<lambda>_. env) t r b) = FindParents fuel env r b"
proof (induction fuel arbitrary: t r)
  case 0
  then show ?case by simp
next
  case (Suc fuel)
  note l = parents_loop_at_const [where env = env and fuel = fuel and b = b, OF Suc.IH]
  show ?case
  proof (cases "BuildRefs env b")
    case (Inl e)
    then show ?thesis by (simp add: index_def)
  next
    case (Inr allRefs)
    show ?thesis
    proof (cases "index allRefs r = []")
      case True
      with Inr show ?thesis by simp
    next
      case False
      show ?thesis
      proof (cases "parents_loop_at fuel (\<lambda>_. env) (Suc t) (index allRefs r) b []")
        case None
        with l [of "Suc t" "index allRefs r" "[]"]
        have "parents_loop fuel env (index allRefs r) b [] = None" by simp
        with None Inr False show ?thesis by simp
      next
        case (Some res)
        obtain ps t' where res: "res = (ps, t')" by (cases res)
        with Some l [of "Suc t" "index allRefs r" "[]"]
        have "parents_loop fuel env (index allRefs r) b [] = Some ps" by simp
        with Some res Inr False show ?thesis by simp
      qed
    qed
  qed
qed

text \<open>The three trees: what the walk builds on each.\<close>

lemma BuildRefs_tree_env:
  "build_forward (tree_env t docs) dirPath = Inr refMap \<Longrightarrow>
     BuildRefs (tree_env t docs) dirPath = Inr (InvertRefs refMap)"
  by (simp add: BuildRefs_def tree_env_def sort_key_const)

lemma build_forward_repo: "build_forward repo_env ''/repo'' = Inr repo_forward"
  by code_simp

lemma BuildRefs_repo: "BuildRefs repo_env ''/repo'' = Inr (InvertRefs repo_forward)"
  using build_forward_repo unfolding repo_env_def by (rule BuildRefs_tree_env)

lemma build_forward_cycle: "build_forward cycle_env ''/repo'' = Inr cycle_forward"
  by code_simp

lemma BuildRefs_cycle: "BuildRefs cycle_env ''/repo'' = Inr (InvertRefs cycle_forward)"
  using build_forward_cycle unfolding cycle_env_def by (rule BuildRefs_tree_env)

lemma build_forward_broken:
  "build_forward broken_env ''/repo'' = Inl (WithStack NoKustomizationFoundInDir)"
  by code_simp

lemma acyclic_repo: "acyclic (referrer_edges (InvertRefs repo_forward))"
proof -
  let ?f = "\<lambda>p. if p = ''refs/kustomization.yaml'' then (0::nat)
                 else if p \<in> fst ` set repo_forward then 1 else 2"
  have d: "distinct (map fst repo_forward)" by (simp add: repo_forward_def)
  have "referrer_edges (InvertRefs repo_forward) \<subseteq> measure ?f"
  proof
    fix e
    assume "e \<in> referrer_edges (InvertRefs repo_forward)"
    then obtain p r where e: "e = (p, r)" "r \<in> set (forward repo_forward p)"
      by (auto simp: referrer_edges_def member_InvertRefs [OF d])
    from e(2) have "?f p < ?f r"
      by (auto simp: forward_def index_def repo_forward_def split: if_splits)
    with e(1) show "e \<in> measure ?f" by simp
  qed
  then have "wf (referrer_edges (InvertRefs repo_forward))"
    by (rule wf_subset [OF wf_measure])
  then show ?thesis by (rule wf_acyclic)
qed

lemma cycle_reached: "reaches_cycle (InvertRefs cycle_forward) ''x/kustomization.yaml''"
proof -
  let ?R = "referrer_edges (InvertRefs cycle_forward)"
  have d: "distinct (map fst cycle_forward)" by (simp add: cycle_forward_def)
  have "''y/kustomization.yaml'' \<in> set (forward cycle_forward ''x/kustomization.yaml'')"
    by (simp add: forward_def index_def cycle_forward_def)
  then have xy: "(''x/kustomization.yaml'', ''y/kustomization.yaml'') \<in> ?R"
    using member_InvertRefs [OF d] by (simp add: referrer_edges_def)
  have "''x/kustomization.yaml'' \<in> set (forward cycle_forward ''y/kustomization.yaml'')"
    by (simp add: forward_def index_def cycle_forward_def)
  then have yx: "(''y/kustomization.yaml'', ''x/kustomization.yaml'') \<in> ?R"
    using member_InvertRefs [OF d] by (simp add: referrer_edges_def)
  from xy yx have "(''x/kustomization.yaml'', ''x/kustomization.yaml'') \<in> ?R\<^sup>+"
    by (rule trancl_into_trancl2 [OF _ r_into_trancl])
  then show ?thesis unfolding reaches_cycle_def by blast
qed

text \<open>
  C1, as the code has it. \<open>FindParents\<close> keeps no set of visited nodes and has no
  \<open>CyclicReference\<close> error. On a root directory whose graph builds, the recursion returns,
  with a nil error and at every depth from some depth on, when no reference cycle can be
  reached by climbing from the changed-file identifier; that is so on every graph without
  a cycle. When a cycle can be reached, no depth of recursion is enough: the call does
  not return.
\<close>

theorem FindParents_returns_unless_cycle:
  assumes "BuildRefs env basePath = Inr allRefs"
  shows "(\<not> reaches_cycle allRefs referrent \<longrightarrow>
            (\<exists>fuel parents. \<forall>k.
               FindParents (fuel + k) env referrent basePath = Some (parents, None)))
       \<and> (acyclic (referrer_edges allRefs) \<longrightarrow> \<not> reaches_cycle allRefs referrent)
       \<and> (reaches_cycle allRefs referrent \<longrightarrow>
            (\<forall>fuel. FindParents fuel env referrent basePath = None))"
  using FindParents_returns [OF assms] FindParents_diverges [OF assms] acyclic_no_cycle
  by blast

text \<open>
  C1 as stated fails: the unit of \<open>x\<close> uses the unit of \<open>y\<close> and the unit of \<open>y\<close> uses the
  unit of \<open>x\<close>; \<open>FindParents\<close> on the unit of \<open>x\<close> returns at no depth, with no error value.
\<close>

theorem FindParents_cycle_counterexample:
  "build_forward cycle_env ''/repo'' =
     Inr [(''x/kustomization.yaml'', [''y/kustomization.yaml'']),
          (''y/kustomization.yaml'', [''x/kustomization.yaml''])]
   \<and> (\<forall>fuel. FindParents fuel cycle_env ''x/kustomization.yaml'' ''/repo'' = None)"
  using build_forward_cycle FindParents_diverges [OF BuildRefs_cycle cycle_reached]
  by (simp add: cycle_forward_def)

text \<open>\<open>a/pod.yaml\<close> in the tree without a cycle, and the unit of \<open>x\<close> in the tree with one.\<close>

theorem FindParents_returns_unless_cycle_witness:
  "BuildRefs repo_env ''/repo'' = Inr (InvertRefs repo_forward)
   \<and> acyclic (referrer_edges (InvertRefs repo_forward))
   \<and> (\<exists>fuel. \<forall>k. FindParents (fuel + k) repo_env ''a/pod.yaml'' ''/repo'' =
            Some ([''refs/kustomization.yaml''], None))
   \<and> BuildRefs cycle_env ''/repo'' = Inr (InvertRefs cycle_forward)
   \<and> reaches_cycle (InvertRefs cycle_forward) ''x/kustomization.yaml''
   \<and> (\<forall>fuel. FindParents fuel cycle_env ''x/kustomization.yaml'' ''/repo'' = None)"
proof -
  note t = FindParents_returns_unless_cycle [OF BuildRefs_repo, of "''a/pod.yaml''"]
  from t acyclic_repo obtain fuel parents
    where f: "\<And>k. FindParents (fuel + k) repo_env ''a/pod.yaml'' ''/repo'' = Some (parents, None)"
    by blast
  have v: "FindParents 3 repo_env ''a/pod.yaml'' ''/repo'' = Some ([''refs/kustomization.yaml''], None)"
    by code_simp
  have "FindParents (3 + fuel) repo_env ''a/pod.yaml'' ''/repo'' =
          Some ([''refs/kustomization.yaml''], None)"
    using FindParents_mono [OF v, of fuel] .
  with f [of 3] have "parents = [''refs/kustomization.yaml'']" by (simp add: add.commute)
  with f have r: "\<exists>fuel. \<forall>k. FindParents (fuel + k) repo_env ''a/pod.yaml'' ''/repo'' =
        Some ([''refs/kustomization.yaml''], None)"
    by blast
  have c: "\<forall>fuel. FindParents fuel cycle_env ''x/kustomization.yaml'' ''/repo'' = None"
    using FindParents_returns_unless_cycle [OF BuildRefs_cycle, of "''x/kustomization.yaml''"]
      cycle_reached by blast
  from BuildRefs_repo acyclic_repo r BuildRefs_cycle cycle_reached c show ?thesis by blast
qed

lemma InvertRefs_unreferenced:
  "(\<And>kv. kv \<in> set refMap \<Longrightarrow> referrent \<notin> set (snd kv)) \<Longrightarrow> InvertRefs refMap referrent = None"
proof -
  assume "\<And>kv. kv \<in> set refMap \<Longrightarrow> referrent \<notin> set (snd kv)"
  then have "referrent \<notin> dom (InvertRefs refMap)" by (auto simp: dom_InvertRefs)
  then show ?thesis by blast
qed

text \<open>
  C5, as the code has it. When the map \<open>BuildRefs\<close> returns for the root directory has no
  entry for the changed-file identifier, or an empty one, \<open>FindParents\<close> returns that
  identifier alone and a nil error, without a recursive call. So it does for an identifier
  that stands in no list of the forward map, the list of its own unit included.
\<close>

theorem FindParents_root_is_itself:
  "(\<forall>allRefs. BuildRefs env basePath = Inr allRefs
        \<and> (allRefs referrent = None \<or> allRefs referrent = Some []) \<longrightarrow>
      FindParents (Suc fuel) env referrent basePath = Some ([referrent], None))
   \<and> (\<forall>refMap. build_forward env basePath = Inr refMap
        \<and> (\<forall>kv \<in> set refMap. referrent \<notin> set (snd kv)) \<longrightarrow>
      FindParents (Suc fuel) env referrent basePath = Some ([referrent], None))"
proof (intro conjI allI impI)
  fix allRefs
  assume a: "BuildRefs env basePath = Inr allRefs
               \<and> (allRefs referrent = None \<or> allRefs referrent = Some [])"
  then have "index allRefs referrent = []" by (auto simp: index_def)
  with a show "FindParents (Suc fuel) env referrent basePath = Some ([referrent], None)"
    using FindParents_root [where env = env and basePath = basePath and referrent = referrent]
    by simp
next
  fix refMap
  assume a: "build_forward env basePath = Inr refMap
               \<and> (\<forall>kv \<in> set refMap. referrent \<notin> set (snd kv))"
  let ?ordered = "sort_key (\<lambda>kv. range_rank env (fst kv)) refMap"
  from a have b: "BuildRefs env basePath = Inr (InvertRefs ?ordered)"
    by (simp add: BuildRefs_def)
  from a have "InvertRefs ?ordered referrent = None"
    by (intro InvertRefs_unreferenced) simp
  then have "index (InvertRefs ?ordered) referrent = []" by (simp add: index_def)
  with b show "FindParents (Suc fuel) env referrent basePath = Some ([referrent], None)"
    using FindParents_root [where env = env and basePath = basePath and referrent = referrent]
    by simp
qed

text \<open>
  C5 as stated fails: no other unit of \<open>self_tree\<close> refers to the unit of \<open>self\<close>, but its
  own list names its directory, so the unit is its own referrer and \<open>FindParents\<close> on it
  returns at no depth.
\<close>

theorem FindParents_self_reference_counterexample:
  "build_forward self_env ''/repo'' =
     Inr [(''other/kustomization.yaml'', [''other/pod.yaml'']),
          (''self/kustomization.yaml'', [''self/kustomization.yaml''])]
   \<and> filter (\<lambda>kv. fst kv \<noteq> ''self/kustomization.yaml''
                    \<and> ''self/kustomization.yaml'' \<in> set (snd kv))
        [(''other/kustomization.yaml'', [''other/pod.yaml'']),
         (''self/kustomization.yaml'', [''self/kustomization.yaml''])] = []
   \<and> (\<forall>fuel. FindParents fuel self_env ''self/kustomization.yaml'' ''/repo'' = None)"
proof -
  have f: "build_forward self_env ''/repo'' = Inr self_forward" by code_simp
  have b: "BuildRefs self_env ''/repo'' = Inr (InvertRefs self_forward)"
    using f unfolding self_env_def by (rule BuildRefs_tree_env)
  let ?R = "referrer_edges (InvertRefs self_forward)"
  have d: "distinct (map fst self_forward)" by (simp add: self_forward_def)
  have "''self/kustomization.yaml'' \<in> set (forward self_forward ''self/kustomization.yaml'')"
    by (simp add: forward_def index_def self_forward_def)
  then have "(''self/kustomization.yaml'', ''self/kustomization.yaml'') \<in> ?R"
    using member_InvertRefs [OF d] by (simp add: referrer_edges_def)
  then have "(''self/kustomization.yaml'', ''self/kustomization.yaml'') \<in> ?R\<^sup>+"
    by (rule r_into_trancl)
  then have c: "reaches_cycle (InvertRefs self_forward) ''self/kustomization.yaml''"
    unfolding reaches_cycle_def by blast
  have n: "FindParents fuel self_env ''self/kustomization.yaml'' ''/repo'' = None" for fuel
    using FindParents_diverges [OF b c] .
  have o: "filter (\<lambda>kv. fst kv \<noteq> ''self/kustomization.yaml''
                    \<and> ''self/kustomization.yaml'' \<in> set (snd kv))
        [(''other/kustomization.yaml'', [''other/pod.yaml'']),
         (''self/kustomization.yaml'', [''self/kustomization.yaml''])] = []"
    by simp
  from f o n show ?thesis by (simp add: self_forward_def)
qed

text \<open>The units of \<open>b\<close> and of \<open>refs\<close>, which no unit of \<open>repo_tree\<close> refers to.\<close>

theorem FindParents_root_is_itself_witness:
  "BuildRefs repo_env ''/repo'' = Inr (InvertRefs repo_forward)
   \<and> InvertRefs repo_forward ''b/kustomization.yaml'' = None
   \<and> FindParents 1 repo_env ''b/kustomization.yaml'' ''/repo'' =
       Some ([''b/kustomization.yaml''], None)
   \<and> build_forward repo_env ''/repo'' = Inr repo_forward
   \<and> FindParents 1 repo_env ''refs/kustomization.yaml'' ''/repo'' =
       Some ([''refs/kustomization.yaml''], None)"
proof -
  have n: "InvertRefs repo_forward ''b/kustomization.yaml'' = None"
    by (simp add: InvertRefs_def repo_forward_def index_def)
  have 1: "FindParents 1 repo_env ''b/kustomization.yaml'' ''/repo'' =
       Some ([''b/kustomization.yaml''], None)"
    using FindParents_root_is_itself [of repo_env "''/repo''" "''b/kustomization.yaml''" 0]
      BuildRefs_repo n by simp
  have u: "\<forall>kv \<in> set repo_forward. ''refs/kustomization.yaml'' \<notin> set (snd kv)"
    by (simp add: repo_forward_def)
  have 2: "FindParents 1 repo_env ''refs/kustomization.yaml'' ''/repo'' =
       Some ([''refs/kustomization.yaml''], None)"
    using FindParents_root_is_itself [of repo_env "''/repo''" "''refs/kustomization.yaml''" 0]
      build_forward_repo u by simp
  from BuildRefs_repo n 1 build_forward_repo 2 show ?thesis by blast
qed

text \<open>
  C2. The code at two inputs where the claim fails. \<open>BuildRefs\<close> fails on \<open>broken_tree\<close>,
  and \<open>FindParents\<close> does not hand that error on: with a nil map \<open>allRefs[referrent]\<close> is
  empty, and the call returns the identifier it was given and a nil error. When the tree
  is \<open>repo_tree\<close> at the first call of \<open>BuildRefs\<close> and \<open>broken_tree\<close> at the second, the
  build fails inside the recursive call on the referrer of \<open>a/pod.yaml\<close>; the outer call
  returns that referrer, which is not a root of \<open>repo_tree\<close>, and a nil error.
\<close>

theorem FindParents_drops_build_error:
  "BuildRefs broken_env ''/repo'' = Inl (WithStack NoKustomizationFoundInDir)
   \<and> (\<forall>fuel. FindParents (Suc fuel) broken_env ''app/pod.yaml'' ''/repo'' =
         Some ([''app/pod.yaml''], None))
   \<and> BuildRefs (switched_world 0) ''/repo'' = Inr (InvertRefs repo_forward)
   \<and> index (InvertRefs repo_forward) ''a/pod.yaml'' = [''a/kustomization.yaml'']
   \<and> BuildRefs (switched_world 1) ''/repo'' = Inl (WithStack NoKustomizationFoundInDir)
   \<and> (\<forall>fuel. FindParents_at (Suc (Suc fuel)) switched_world 0 ''a/pod.yaml'' ''/repo'' =
         Some (([''a/kustomization.yaml''], None), 2))"
proof -
  have b: "BuildRefs broken_env ''/repo'' = Inl (WithStack NoKustomizationFoundInDir)"
    using build_forward_broken by (rule BuildRefs_Inl)
  then have s: "FindParents (Suc fuel) broken_env ''app/pod.yaml'' ''/repo'' =
         Some ([''app/pod.yaml''], None)" for fuel
    using FindParents_root [where env = broken_env and basePath = "''/repo''"
        and referrent = "''app/pod.yaml''" and fuel = fuel]
    by simp
  have b0: "BuildRefs (switched_world 0) ''/repo'' = Inr (InvertRefs repo_forward)"
    by (simp add: switched_world_def BuildRefs_repo)
  have b1: "BuildRefs (switched_world (Suc 0)) ''/repo'' = Inl (WithStack NoKustomizationFoundInDir)"
    by (simp add: switched_world_def b)
  have i: "index (InvertRefs repo_forward) ''a/pod.yaml'' = [''a/kustomization.yaml'']"
    by (simp add: InvertRefs_def repo_forward_def index_def)
  have e: "index Map.empty ''a/kustomization.yaml'' = []" by (simp add: index_def)
  have outer: "FindParents_at (Suc (Suc fuel)) switched_world 0 ''a/pod.yaml'' ''/repo'' =
         Some (([''a/kustomization.yaml''], None), 2)" for fuel
    by (simp add: b0 b1 i e)
  from b s b0 i b1 outer show ?thesis by simp
qed

end
